theory Spec2Isabelle
  imports Complex_Main "HOL-Library.Log_Nat"
begin

datatype mode = ModeL | ModeRGB | ModeRGBA | ModeP

record image =
  mode :: mode
  imsize :: "nat \<times> nat"
  bands :: "int list list"
  palette :: "int list"

definition nbands :: "mode \<Rightarrow> nat" where
  "nbands m = (case m of ModeL \<Rightarrow> 1 | ModeRGB \<Rightarrow> 3 | ModeRGBA \<Rightarrow> 4 | ModeP \<Rightarrow> 1)"

definition wf_image :: "image \<Rightarrow> bool" where
  "wf_image img \<longleftrightarrow>
     length (bands img) = nbands (mode img) \<and>
     (\<forall>b \<in> set (bands img).
        length b = fst (imsize img) * snd (imsize img) \<and> (\<forall>p \<in> set b. 0 \<le> p \<and> p \<le> 255)) \<and>
     (mode img = ModeP \<longrightarrow>
        length (palette img) = 1024 \<and> (\<forall>v \<in> set (palette img). 0 \<le> v \<and> v \<le> 255))"

definition band_histogram :: "int list \<Rightarrow> int list" where
  "band_histogram b = map (\<lambda>i. int (count_list b (int i))) [0..<256]"

definition histogram :: "image \<Rightarrow> int list" where
  "histogram img = concat (map band_histogram (bands img))"

definition point :: "(int \<Rightarrow> int) \<Rightarrow> image \<Rightarrow> image" where
  "point f img = img\<lparr>bands := map (map f) (bands img)\<rparr>"

record otsu_state =
  best_threshold :: nat
  best_variance :: rat
  weight_bg :: int
  sum_bg :: int

definition otsu_variance :: "(rat \<Rightarrow> rat) \<Rightarrow> int \<Rightarrow> int \<Rightarrow> int \<Rightarrow> int \<Rightarrow> rat" where
  "otsu_variance rnd w_bg w_fg s_bg total_sum =
     (let mean_bg = rnd (of_int s_bg / of_int w_bg);
          mean_fg = rnd (of_int (total_sum - s_bg) / of_int w_fg)
      in rnd (rnd (of_int (w_bg * w_fg)) * rnd ((rnd (mean_bg - mean_fg))\<^sup>2)))"

function otsu_loop ::
  "(rat \<Rightarrow> rat) \<Rightarrow> int list \<Rightarrow> int \<Rightarrow> int \<Rightarrow> nat \<Rightarrow> otsu_state \<Rightarrow> otsu_state" where
  "otsu_loop rnd hist total_pixels total_sum t s =
     (if 256 \<le> t then s
      else
        let w_bg = weight_bg s + hist ! t in
        if w_bg = 0 then otsu_loop rnd hist total_pixels total_sum (Suc t) (s\<lparr>weight_bg := w_bg\<rparr>)
        else
          let w_fg = total_pixels - w_bg in
          if w_fg = 0 then s\<lparr>weight_bg := w_bg\<rparr>
          else
            let s_bg = sum_bg s + int t * hist ! t;
                variance = otsu_variance rnd w_bg w_fg s_bg total_sum;
                s' = s\<lparr>weight_bg := w_bg, sum_bg := s_bg\<rparr>
            in if variance > best_variance s
               then otsu_loop rnd hist total_pixels total_sum (Suc t)
                      (s'\<lparr>best_variance := variance, best_threshold := t\<rparr>)
               else otsu_loop rnd hist total_pixels total_sum (Suc t) s')"
  by pat_completeness auto

termination
  by (relation "measure (\<lambda>(rnd, hist, total_pixels, total_sum, t, s). 256 - t)") auto

declare otsu_loop.simps [simp del]

definition otsu_threshold :: "(rat \<Rightarrow> rat) \<Rightarrow> image \<Rightarrow> nat" where
  "otsu_threshold rnd img =
     (let hist = histogram img;
          total_pixels = int (fst (imsize img) * snd (imsize img));
          total_sum = (\<Sum>i\<leftarrow>[0..<256]. int i * hist ! i)
      in best_threshold
           (otsu_loop rnd hist total_pixels total_sum 0
              \<lparr>best_threshold = 128, best_variance = 0, weight_bg = 0, sum_bg = 0\<rparr>))"

definition binarize :: "(rat \<Rightarrow> rat) \<Rightarrow> image \<Rightarrow> image" where
  "binarize rnd img =
     (let threshold = otsu_threshold rnd img
      in point (\<lambda>p. if p > int threshold then 255 else 0) img)"

text \<open>
  Notions for one band of pixels: a threshold \<open>t\<close> splits the pixels when both classes
  (\<open>\<le> t\<close> and \<open>> t\<close>) are non-empty; \<open>computed_variance\<close> is the score the loop of
  \<open>_otsu_threshold\<close> computes at \<open>t\<close>, in Python floats, every operation rounded by
  \<open>rnd\<close>.
\<close>

definition splits :: "int list \<Rightarrow> nat \<Rightarrow> bool" where
  "splits px t \<longleftrightarrow> (\<exists>p \<in> set px. p \<le> int t) \<and> (\<exists>p \<in> set px. int t < p)"

definition computed_variance :: "(rat \<Rightarrow> rat) \<Rightarrow> int list \<Rightarrow> nat \<Rightarrow> rat" where
  "computed_variance rnd px t =
     (let bg = filter (\<lambda>p. p \<le> int t) px;
          fg = filter (\<lambda>p. int t < p) px;
          weight_bg = int (length bg);
          weight_fg = int (length fg);
          mean_bg = rnd (of_int (sum_list bg) / of_int weight_bg);
          mean_fg = rnd (of_int (sum_list fg) / of_int weight_fg)
      in rnd (rnd (of_int (weight_bg * weight_fg)) * rnd ((rnd (mean_bg - mean_fg))\<^sup>2)))"





definition rnd_ok :: "(rat \<Rightarrow> rat) \<Rightarrow> bool" where
  "rnd_ok rnd \<longleftrightarrow>
     (\<forall>x y. x \<le> y \<longrightarrow> rnd x \<le> rnd y) \<and>
     (\<forall>k::int. - 1 \<le> k \<and> k \<le> 256 \<longrightarrow> rnd (of_int k) = of_int k)"

definition best_upto :: "(rat \<Rightarrow> rat) \<Rightarrow> int list \<Rightarrow> nat \<Rightarrow> otsu_state \<Rightarrow> bool" where
  "best_upto rnd px t s \<longleftrightarrow>
     (if \<exists>u<t. splits px u
      then splits px (best_threshold s) \<and> best_threshold s < t \<and>
           best_variance s = computed_variance rnd px (best_threshold s) \<and>
           (\<forall>u<t. splits px u \<longrightarrow> computed_variance rnd px u \<le> best_variance s) \<and>
           (\<forall>u<best_threshold s. splits px u \<longrightarrow> computed_variance rnd px u < best_variance s)
      else best_threshold s = 128 \<and> best_variance s = 0)"

definition otsu_init :: otsu_state where
  "otsu_init = \<lparr>best_threshold = 128, best_variance = 0, weight_bg = 0, sum_bg = 0\<rparr>"

text \<open>
  Python floats are IEEE 754 binary64.  \<open>fl\<close> rounds a rational to the nearest value with a
  53-bit significand, ties to even (exponent range unbounded: no overflow, no subnormals).
\<close>

definition pow2 :: "int \<Rightarrow> rat" where
  "pow2 k = (if 0 \<le> k then 2 ^ nat k else 1 / 2 ^ nat (- k))"

definition round_half_even :: "rat \<Rightarrow> int" where
  "round_half_even r =
     (let f = \<lfloor>r\<rfloor>; d = r - of_int f
      in if d < 1 / 2 then f else if 1 / 2 < d then f + 1 else if even f then f else f + 1)"

definition binade :: "rat \<Rightarrow> int" where
  "binade a =
     (let (p, q) = quotient_of a; k = bitlen p - bitlen q
      in if pow2 k \<le> a then k else k - 1)"

definition fl :: "rat \<Rightarrow> rat" where
  "fl x = (if x = 0 then 0
           else let ulp = pow2 (binade \<bar>x\<bar> - 52)
                in sgn x * of_int (round_half_even (\<bar>x\<bar> / ulp)) * ulp)"


definition two_tone :: image where
  "two_tone = \<lparr>mode = ModeL, imsize = (4, 1), bands = [[0, 255, 255, 0]], palette = []\<rparr>"


section \<open>The imaging library\<close>

text \<open>
  \<open>preprocess_image\<close> is written against the Pillow imaging library.  Operations whose
  pixel arithmetic is simple are modelled directly (point, invert, blend, histogram,
  statistics, rank filter, crop, expand).  The pixel data produced by mode conversion,
  masked paste and Lanczos resampling is taken from a record of library operations; the
  wrappers below fix what the code relies on: the mode and size of the result.
\<close>

datatype error = ValueError | ZeroDivisionError

record pil =
  convert_bands :: "mode \<Rightarrow> image \<Rightarrow> int list list"
  paste_bands :: "image \<Rightarrow> image \<Rightarrow> int list \<Rightarrow> int list list"
  resample_bands :: "nat \<times> nat \<Rightarrow> image \<Rightarrow> int list list"

text \<open>Row-major pixel data built by \<open>for y in range(h): for x in range(w)\<close>.\<close>

definition grid :: "nat \<Rightarrow> nat \<Rightarrow> (nat \<Rightarrow> nat \<Rightarrow> 'a) \<Rightarrow> 'a list" where
  "grid w h f = concat (map (\<lambda>y. map (\<lambda>x. f x y) [0..<w]) [0..<h])"

definition convert :: "pil \<Rightarrow> mode \<Rightarrow> image \<Rightarrow> image" where
  "convert lib m img =
     (if mode img = m then img
      else \<lparr>mode = m, imsize = imsize img, bands = convert_bands lib m img, palette = []\<rparr>)"

definition new_image :: "mode \<Rightarrow> nat \<times> nat \<Rightarrow> int list \<Rightarrow> image" where
  "new_image m sz color =
     \<lparr>mode = m, imsize = sz, bands = map (replicate (fst sz * snd sz)) color, palette = []\<rparr>"

definition paste :: "pil \<Rightarrow> image \<Rightarrow> image \<Rightarrow> int list \<Rightarrow> image" where
  "paste lib background img msk = background\<lparr>bands := paste_bands lib background img msk\<rparr>"

definition py_int :: "rat \<Rightarrow> int" where
  "py_int x = (if 0 \<le> x then \<lfloor>x\<rfloor> else \<lceil>x\<rceil>)"

definition stat_mean :: "(rat \<Rightarrow> rat) \<Rightarrow> image \<Rightarrow> error + rat" where
  "stat_mean rnd img =
     (let h = histogram img;
          count = sum_list (take 256 h);
          wsum = (\<Sum>i\<leftarrow>[0..<256]. int i * h ! i)
      in if count = 0 then Inl ZeroDivisionError
         else Inr (rnd (of_int wsum / of_int count)))"

definition invert :: "image \<Rightarrow> image" where
  "invert img = point (\<lambda>p. 255 - p) img"

definition blend_pixel :: "rat \<Rightarrow> int \<Rightarrow> int \<Rightarrow> int" where
  "blend_pixel alpha in1 in2 =
     (let temp = of_int in1 + alpha * of_int (in2 - in1)
      in if 0 \<le> alpha \<and> alpha \<le> 1 then py_int temp
         else if temp \<le> 0 then 0
         else if 255 \<le> temp then 255
         else py_int temp)"

definition blend :: "image \<Rightarrow> image \<Rightarrow> rat \<Rightarrow> image" where
  "blend im1 im2 alpha =
     im1\<lparr>bands := map2 (map2 (blend_pixel alpha)) (bands im1) (bands im2)\<rparr>"

definition contrast_enhance :: "(rat \<Rightarrow> rat) \<Rightarrow> pil \<Rightarrow> image \<Rightarrow> rat \<Rightarrow> error + image" where
  "contrast_enhance rnd lib img factor =
     (case stat_mean rnd (convert lib ModeL img) of
        Inl e \<Rightarrow> Inl e
      | Inr m \<Rightarrow>
          let mean = py_int (rnd (m + 1 / 2));
              degenerate = convert lib (mode img) (new_image ModeL (imsize img) [mean])
          in Inr (blend degenerate img factor))"

definition clamp_index :: "int \<Rightarrow> nat \<Rightarrow> nat" where
  "clamp_index i n = nat (max 0 (min i (int n - 1)))"

definition window3 :: "nat \<Rightarrow> nat \<Rightarrow> int list \<Rightarrow> nat \<Rightarrow> nat \<Rightarrow> int list" where
  "window3 w h b x y =
     concat (map (\<lambda>dy. map (\<lambda>dx. b ! (clamp_index (int y + dy) h * w + clamp_index (int x + dx) w))
                          [- 1, 0, 1])
                 [- 1, 0, 1])"

definition median_filter3 :: "image \<Rightarrow> image" where
  "median_filter3 img =
     (let (w, h) = imsize img
      in img\<lparr>bands :=
           map (\<lambda>b. grid w h (\<lambda>x y. sort (window3 w h b x y) ! 4)) (bands img)\<rparr>)"

definition crop :: "nat \<times> nat \<times> nat \<times> nat \<Rightarrow> image \<Rightarrow> image" where
  "crop box img =
     (let (left, upper, right, lower) = box;
          (w, h) = imsize img;
          nw = right - left;
          nh = lower - upper
      in img\<lparr>imsize := (nw, nh),
             bands := map (\<lambda>b. grid nw nh (\<lambda>x y. b ! ((y + upper) * w + (x + left))))
                        (bands img)\<rparr>)"

definition expand :: "image \<Rightarrow> nat \<Rightarrow> int \<Rightarrow> image" where
  "expand img border fill =
     (let (w, h) = imsize img;
          nw = w + 2 * border;
          nh = h + 2 * border
      in img\<lparr>imsize := (nw, nh),
             bands := map (\<lambda>b. grid nw nh
                                 (\<lambda>x y. if border \<le> x \<and> x < border + w \<and> border \<le> y \<and> y < border + h
                                        then b ! ((y - border) * w + (x - border)) else fill))
                        (bands img)\<rparr>)"

definition resize :: "pil \<Rightarrow> int \<times> int \<Rightarrow> image \<Rightarrow> error + image" where
  "resize lib sz img =
     (if (int (fst (imsize img)), int (snd (imsize img))) = sz then Inr img
      else if fst sz < 1 \<or> snd sz < 1 then Inl ValueError
      else Inr (img\<lparr>imsize := (nat (fst sz), nat (snd sz)),
                     bands := resample_bands lib (nat (fst sz), nat (snd sz)) img\<rparr>))"

definition py_truediv :: "(rat \<Rightarrow> rat) \<Rightarrow> int \<Rightarrow> int \<Rightarrow> error + rat" where
  "py_truediv rnd a b = (if b = 0 then Inl ZeroDivisionError else Inr (rnd (of_int a / of_int b)))"

definition scaled_dim :: "(rat \<Rightarrow> rat) \<Rightarrow> nat \<Rightarrow> rat \<Rightarrow> int" where
  "scaled_dim rnd w scale = py_int (rnd (rnd (of_nat w) * scale))"

section \<open>The nine steps of \<open>preprocess_image\<close>\<close>

definition flatten_onto_white :: "pil \<Rightarrow> image \<Rightarrow> image" where
  "flatten_onto_white lib img =
     (let background = new_image ModeRGBA (imsize img) [255, 255, 255, 255];
          background = paste lib background img (bands img ! 3)
      in convert lib ModeRGB background)"

definition step1_flatten :: "pil \<Rightarrow> image \<Rightarrow> image" where
  "step1_flatten lib img =
     (if mode img = ModeRGBA then flatten_onto_white lib img
      else if mode img = ModeP then flatten_onto_white lib (convert lib ModeRGBA img)
      else if mode img \<noteq> ModeRGB then convert lib ModeRGB img
      else img)"

definition step2_grayscale :: "pil \<Rightarrow> image \<Rightarrow> image" where
  "step2_grayscale lib img = convert lib ModeL img"

definition step3_invert_dark :: "(rat \<Rightarrow> rat) \<Rightarrow> image \<Rightarrow> error + image" where
  "step3_invert_dark rnd img =
     (case stat_mean rnd img of
        Inl e \<Rightarrow> Inl e
      | Inr mean_val \<Rightarrow> Inr (if mean_val < 128 then invert img else img))"

definition step4_suppress_light :: "image \<Rightarrow> image" where
  "step4_suppress_light img = point (\<lambda>p. if p > 160 then 255 else p) img"

definition step5_contrast :: "(rat \<Rightarrow> rat) \<Rightarrow> pil \<Rightarrow> image \<Rightarrow> error + image" where
  "step5_contrast rnd lib img = contrast_enhance rnd lib img (3 / 2)"

definition step7_median :: "image \<Rightarrow> image" where
  "step7_median img = median_filter3 img"

definition step8_crop_pad :: "image \<Rightarrow> image" where
  "step8_crop_pad img =
     (let (w, h) = imsize img;
          border_crop = 3;
          img = (if w > 2 * border_crop + 10 \<and> h > 2 * border_crop + 10
                 then crop (border_crop, border_crop, w - border_crop, h - border_crop) img
                 else img)
      in expand img 15 255)"

definition step9_upscale :: "(rat \<Rightarrow> rat) \<Rightarrow> pil \<Rightarrow> image \<Rightarrow> error + image" where
  "step9_upscale rnd lib img =
     (let (w, h) = imsize img;
          min_dim = min w h
      in if min_dim < 400
         then (case py_truediv rnd 400 (int min_dim) of
                 Inl e \<Rightarrow> Inl e
               | Inr scale \<Rightarrow> resize lib (scaled_dim rnd w scale, scaled_dim rnd h scale) img)
         else Inr img)"

definition step9_downscale :: "(rat \<Rightarrow> rat) \<Rightarrow> pil \<Rightarrow> image \<Rightarrow> error + image" where
  "step9_downscale rnd lib img =
     (let (w, h) = imsize img;
          max_dim = max w h
      in if max_dim > 1500
         then (case py_truediv rnd 1500 (int max_dim) of
                 Inl e \<Rightarrow> Inl e
               | Inr scale \<Rightarrow> resize lib (scaled_dim rnd w scale, scaled_dim rnd h scale) img)
         else Inr img)"

definition step9_resolution :: "(rat \<Rightarrow> rat) \<Rightarrow> pil \<Rightarrow> image \<Rightarrow> error + image" where
  "step9_resolution rnd lib img =
     (case step9_upscale rnd lib img of
        Inl e \<Rightarrow> Inl e
      | Inr img \<Rightarrow> step9_downscale rnd lib img)"

definition steps_1_to_8 :: "(rat \<Rightarrow> rat) \<Rightarrow> pil \<Rightarrow> image \<Rightarrow> error + image" where
  "steps_1_to_8 rnd lib img =
     (let img = step1_flatten lib img;
          img = step2_grayscale lib img
      in case step3_invert_dark rnd img of
           Inl e \<Rightarrow> Inl e
         | Inr img \<Rightarrow>
             (let img = step4_suppress_light img
              in case step5_contrast rnd lib img of
                   Inl e \<Rightarrow> Inl e
                 | Inr img \<Rightarrow>
                     (let img = binarize rnd img;
                          img = step7_median img
                      in Inr (step8_crop_pad img))))"

definition preprocess_image :: "(rat \<Rightarrow> rat) \<Rightarrow> pil \<Rightarrow> image \<Rightarrow> error + image" where
  "preprocess_image rnd lib img =
     (case steps_1_to_8 rnd lib img of
        Inl e \<Rightarrow> Inl e
      | Inr img \<Rightarrow> step9_resolution rnd lib img)"

text \<open>The variant in \<open>src/server.py\<close>: coerce to RGB, nothing else.\<close>

definition preprocess_image_minimal :: "pil \<Rightarrow> image \<Rightarrow> image" where
  "preprocess_image_minimal lib img =
     (if mode img \<noteq> ModeRGB then convert lib ModeRGB img else img)"

section \<open>Recognition adapter and request handler\<close>

text \<open>
  What \<open>subprocess.run\<close> can do: complete with a return code, standard output and
  standard error, or raise.  \<open>Interrupt\<close> stands for an exception that is not an
  \<open>Exception\<close> (such as \<open>KeyboardInterrupt\<close>), the only kind that escapes
  \<open>recognize_molecule_with_osra\<close>.
\<close>

datatype proc_outcome =
    Completed int string string
  | TimeoutExpired
  | FileNotFoundError
  | OtherException string
  | Interrupt

definition is_space :: "char \<Rightarrow> bool" where
  "is_space c \<longleftrightarrow> of_char c \<in> {9, 10, 11, 12, 13, 28, 29, 30, 31, 32, 133, 160 :: nat}"

definition py_strip :: "string \<Rightarrow> string" where
  "py_strip s = rev (dropWhile is_space (rev (dropWhile is_space s)))"

fun split_ws :: "string \<Rightarrow> string \<Rightarrow> string list" where
  "split_ws [] cur = (if cur = [] then [] else [rev cur])"
| "split_ws (c # cs) cur =
     (if is_space c then (if cur = [] then split_ws cs [] else rev cur # split_ws cs [])
      else split_ws cs (c # cur))"

definition py_split :: "string \<Rightarrow> string list" where
  "py_split s = split_ws s []"

definition recognize_molecule_with_osra :: "(string \<Rightarrow> proc_outcome) \<Rightarrow> string \<Rightarrow> unit + string option" where
  "recognize_molecule_with_osra subprocess_run image_path =
     (case subprocess_run image_path of
        Completed returncode stdout stderr \<Rightarrow>
          (if returncode = 0
           then (let smiles = py_strip stdout
                 in if smiles \<noteq> []
                    then (let smiles_parts = py_split smiles
                          in if smiles_parts \<noteq> [] then Inr (Some (hd smiles_parts)) else Inr None)
                    else Inr None)
           else Inr None)
      | TimeoutExpired \<Rightarrow> Inr None
      | FileNotFoundError \<Rightarrow> Inr None
      | OtherException e \<Rightarrow> Inr None
      | Interrupt \<Rightarrow> Inl ())"

record response =
  status :: nat
  success :: "bool option"
  smiles :: "string option"
  err :: "string option"

datatype outcome = Response response | Propagated

text \<open>
  What the surroundings of one request supply: whether the form has an \<open>image\<close> field,
  what \<open>Image.open\<close> gives (an image or an exception's text), the name of the temporary
  file, whether writing it fails, the engine's behaviour, and what the engine process
  does to the set of existing files.
\<close>

record request_env =
  has_image :: bool
  opened :: "string + image"
  temp_name :: string
  save_error :: "string option"
  subprocess_run :: "string \<Rightarrow> proc_outcome"
  engine_fs :: "string set \<Rightarrow> string set"

definition error_text :: "error \<Rightarrow> string" where
  "error_text e = (case e of ValueError \<Rightarrow> ''height and width must be > 0''
                          | ZeroDivisionError \<Rightarrow> ''division by zero'')"

definition not_recognized :: string where
  "not_recognized = ''Could not recognize molecular structure. Make sure the image contains a clear chemical structure diagram.''"

definition analyze_molecule ::
  "(rat \<Rightarrow> rat) \<Rightarrow> pil \<Rightarrow> request_env \<Rightarrow> string set \<Rightarrow> outcome \<times> string set" where
  "analyze_molecule rnd lib env fs =
     (if \<not> has_image env
      then (Response \<lparr>status = 400, success = None, smiles = None, err = Some ''No image provided''\<rparr>, fs)
      else case opened env of
        Inl msg \<Rightarrow> (Response \<lparr>status = 500, success = None, smiles = None, err = Some msg\<rparr>, fs)
      | Inr img \<Rightarrow>
        (case preprocess_image rnd lib img of
           Inl e \<Rightarrow>
             (Response \<lparr>status = 500, success = None, smiles = None, err = Some (error_text e)\<rparr>, fs)
         | Inr img \<Rightarrow>
             (let temp_path = temp_name env;
                  fs = insert temp_path fs
              in case save_error env of
                   Some msg \<Rightarrow>
                     (Response \<lparr>status = 500, success = None, smiles = None, err = Some msg\<rparr>, fs)
                 | None \<Rightarrow>
                     (let result = recognize_molecule_with_osra (subprocess_run env) temp_path;
                          fs = engine_fs env fs;
                          fs = (if temp_path \<in> fs then fs - {temp_path} else fs)
                      in case result of
                           Inl _ \<Rightarrow> (Propagated, fs)
                         | Inr (Some s) \<Rightarrow>
                             (if s \<noteq> []
                              then (Response \<lparr>status = 200, success = Some True,
                                              smiles = Some s, err = None\<rparr>, fs)
                              else (Response \<lparr>status = 200, success = Some False,
                                              smiles = None, err = Some not_recognized\<rparr>, fs))
                         | Inr None \<Rightarrow>
                             (Response \<lparr>status = 200, success = Some False,
                                        smiles = None, err = Some not_recognized\<rparr>, fs)))))"

definition reaches_recognition :: "(rat \<Rightarrow> rat) \<Rightarrow> pil \<Rightarrow> request_env \<Rightarrow> bool" where
  "reaches_recognition rnd lib env \<longleftrightarrow>
     has_image env \<and> save_error env = None \<and>
     (case opened env of
        Inl msg \<Rightarrow> False
      | Inr img \<Rightarrow> (case preprocess_image rnd lib img of Inl e \<Rightarrow> False | Inr img \<Rightarrow> True))"

definition engine_failed :: "proc_outcome \<Rightarrow> bool" where
  "engine_failed run =
     (case run of
        Completed returncode stdout stderr \<Rightarrow> returncode \<noteq> 0 \<or> stdout = []
      | TimeoutExpired \<Rightarrow> True
      | FileNotFoundError \<Rightarrow> True
      | OtherException e \<Rightarrow> False
      | Interrupt \<Rightarrow> False)"

section \<open>A concrete library instance\<close>

text \<open>
  Pillow's 8-bit conversions: grey to colour replicates the value, colour to grey is the
  ITU-R 601-2 luma in 16-bit fixed point, a palette image looks its indices up in a table
  of RGBA entries, and pasting through a mask blends each band with rounding division by
  255.
\<close>

definition luma :: "int \<Rightarrow> int \<Rightarrow> int \<Rightarrow> int" where
  "luma r g b = (r * 19595 + g * 38470 + b * 7471 + 32768) div 65536"

definition blend8 :: "int \<Rightarrow> int \<Rightarrow> int \<Rightarrow> int" where
  "blend8 m in1 in2 = (let tmp = in1 * (255 - m) + in2 * m + 128 in (tmp div 256 + tmp) div 256)"

definition to_rgba :: "image \<Rightarrow> int list list" where
  "to_rgba img =
     (let n = fst (imsize img) * snd (imsize img);
          opaque = replicate n 255
      in case mode img of
           ModeL \<Rightarrow> [bands img ! 0, bands img ! 0, bands img ! 0, opaque]
         | ModeRGB \<Rightarrow> [bands img ! 0, bands img ! 1, bands img ! 2, opaque]
         | ModeRGBA \<Rightarrow> [bands img ! 0, bands img ! 1, bands img ! 2, bands img ! 3]
         | ModeP \<Rightarrow> map (\<lambda>c. map (\<lambda>i. palette img ! (4 * nat i + c)) (bands img ! 0)) [0, 1, 2, 3])"

definition pillow_convert :: "mode \<Rightarrow> image \<Rightarrow> int list list" where
  "pillow_convert m img =
     (let rgba = to_rgba img
      in case m of
           ModeRGBA \<Rightarrow> rgba
         | ModeRGB \<Rightarrow> take 3 rgba
         | ModeL \<Rightarrow> [map (\<lambda>(r, g, b). luma r g b) (zip (rgba ! 0) (zip (rgba ! 1) (rgba ! 2)))]
         | ModeP \<Rightarrow> [map (\<lambda>(r, g, b). luma r g b) (zip (rgba ! 0) (zip (rgba ! 1) (rgba ! 2)))])"

definition pillow_paste :: "image \<Rightarrow> image \<Rightarrow> int list \<Rightarrow> int list list" where
  "pillow_paste background img msk =
     map2 (\<lambda>dst src. map (\<lambda>(m, d, s). blend8 m d s) (zip msk (zip dst src)))
       (bands background) (bands img)"

text \<open>
  Lanczos resampling of 8-bit bands as Pillow does it: per output coordinate a window of
  source pixels and normalised kernel weights, the weights turned into 22-bit fixed
  point, a horizontal pass and then a vertical pass, each rounding and clipping to a byte.
  The kernel is evaluated in real arithmetic here.
\<close>

definition sinc_filter :: "real \<Rightarrow> real" where
  "sinc_filter x = (if x = 0 then 1 else sin (x * pi) / (x * pi))"

definition lanczos_filter :: "real \<Rightarrow> real" where
  "lanczos_filter x = (if - 3 \<le> x \<and> x < 3 then sinc_filter x * sinc_filter (x / 3) else 0)"

definition c_int :: "real \<Rightarrow> int" where
  "c_int x = (if 0 \<le> x then \<lfloor>x\<rfloor> else \<lceil>x\<rceil>)"

definition precompute_coeffs :: "nat \<Rightarrow> nat \<Rightarrow> nat \<Rightarrow> nat \<times> int list" where
  "precompute_coeffs inSize outSize xx =
     (let scale = real inSize / real outSize;
          filterscale = max scale 1;
          support = 3 * filterscale;
          center = (real xx + 1 / 2) * scale;
          ss = 1 / filterscale;
          xmin = nat (max 0 (c_int (center - support + 1 / 2)));
          xmax = nat (min (int inSize) (c_int (center + support + 1 / 2))) - xmin;
          ws = map (\<lambda>x. lanczos_filter ((real (x + xmin) - center + 1 / 2) * ss)) [0..<xmax];
          ww = sum_list ws;
          ks = map (\<lambda>w. if ww \<noteq> 0 then w / ww else w) ws
      in (xmin, map (\<lambda>k. if k < 0 then c_int (- (1 / 2) + k * 2 ^ 22)
                           else c_int (1 / 2 + k * 2 ^ 22)) ks))"

definition clip8 :: "int \<Rightarrow> int" where
  "clip8 v = max 0 (min 255 (v div 2 ^ 22))"

definition weighted_pixel :: "nat \<times> int list \<Rightarrow> (nat \<Rightarrow> int) \<Rightarrow> int" where
  "weighted_pixel c src =
     clip8 (2 ^ 21 + (\<Sum>x\<leftarrow>[0..<length (snd c)]. src (x + fst c) * snd c ! x))"

definition resample_horizontal :: "nat \<Rightarrow> nat \<Rightarrow> nat \<Rightarrow> int list \<Rightarrow> int list" where
  "resample_horizontal w h nw b =
     grid nw h (\<lambda>xx y. weighted_pixel (precompute_coeffs w nw xx) (\<lambda>x. b ! (y * w + x)))"

definition resample_vertical :: "nat \<Rightarrow> nat \<Rightarrow> nat \<Rightarrow> int list \<Rightarrow> int list" where
  "resample_vertical w h nh b =
     grid w nh (\<lambda>x yy. weighted_pixel (precompute_coeffs h nh yy) (\<lambda>y. b ! (y * w + x)))"

definition lanczos_resample :: "nat \<times> nat \<Rightarrow> image \<Rightarrow> int list list" where
  "lanczos_resample sz img =
     (let (nw, nh) = sz; (w, h) = imsize img
      in map (\<lambda>b. let b1 = (if nw \<noteq> w then resample_horizontal w h nw b else b)
                  in if nh \<noteq> h then resample_vertical nw h nh b1 else b1)
           (bands img))"

definition pillow :: pil where
  "pillow = \<lparr>convert_bands = pillow_convert, paste_bands = pillow_paste,
             resample_bands = lanczos_resample\<rparr>"

text \<open>What \<open>preprocess_image\<close> needs from the library: conversions and pastes of
  well-formed images are well-formed.\<close>

definition pil_ok :: "pil \<Rightarrow> bool" where
  "pil_ok lib \<longleftrightarrow>
     (\<forall>img m. wf_image img \<and> m \<noteq> ModeP \<longrightarrow> wf_image (convert lib m img)) \<and>
     (\<forall>background img. wf_image background \<and> wf_image img \<and> mode background = ModeRGBA \<and>
        mode img = ModeRGBA \<and> imsize img = imsize background \<longrightarrow>
        wf_image (paste lib background img (bands img ! 3)))"

definition binary_image :: "image \<Rightarrow> bool" where
  "binary_image img \<longleftrightarrow> (\<forall>b \<in> set (bands img). \<forall>p \<in> set b. p = 0 \<or> p = 255)"

definition square97 :: image where
  "square97 = \<lparr>mode = ModeL, imsize = (97, 97), bands = [replicate (97 * 97) 255], palette = []\<rparr>"

definition small_gray :: image where
  "small_gray = \<lparr>mode = ModeL, imsize = (2, 1), bands = [[0, 255]], palette = []\<rparr>"

section \<open>Example inputs\<close>

text \<open>The repository's test uploads a plain white 400 by 300 RGB image.\<close>

definition white_400_300 :: image where
  "white_400_300 = \<lparr>mode = ModeRGB, imsize = (400, 300),
                     bands = replicate 3 (replicate (400 * 300) 255), palette = []\<rparr>"

definition white_400_400 :: image where
  "white_400_400 = \<lparr>mode = ModeL, imsize = (400, 400),
                     bands = [replicate (400 * 400) 255], palette = []\<rparr>"

definition tall_image :: image where
  "tall_image = \<lparr>mode = ModeL, imsize = (1, 50000), bands = [replicate (1 * 50000) 255], palette = []\<rparr>"

text \<open>A two by two image, upper row black and lower row white, and what steps 1 to 8
  make of it: 32 by 32, white but for two black pixels.\<close>

definition edge_image :: image where
  "edge_image = \<lparr>mode = ModeL, imsize = (2, 2), bands = [[0, 0, 255, 255]], palette = []\<rparr>"

definition edge_padded :: "int list" where
  "edge_padded = grid 32 32 (\<lambda>x y. if y = 16 \<and> (x = 15 \<or> x = 16) then 0 else 255)"


definition env_ok :: "proc_outcome \<Rightarrow> request_env" where
  "env_ok run = \<lparr>has_image = True, opened = Inr small_gray, temp_name = ''/tmp/tmpa1b2c3.png'',
                  save_error = None, subprocess_run = (\<lambda>path. run), engine_fs = (\<lambda>fs. fs)\<rparr>"

definition env_tall :: request_env where
  "env_tall = \<lparr>has_image = True, opened = Inr tall_image, temp_name = ''/tmp/tmpa1b2c3.png'',
                save_error = None, subprocess_run = (\<lambda>path. FileNotFoundError),
                engine_fs = (\<lambda>fs. fs)\<rparr>"


text \<open>A well-formed grayscale image is one band of \<open>w * h\<close> bytes.\<close>

definition gray_ok :: "image \<Rightarrow> bool" where
  "gray_ok img \<longleftrightarrow> wf_image img \<and> mode img = ModeL"

definition bands_ok :: "nat \<Rightarrow> nat \<Rightarrow> int list list \<Rightarrow> bool" where
  "bands_ok n k bs \<longleftrightarrow>
     length bs = k \<and> (\<forall>b \<in> set bs. length b = n \<and> (\<forall>p \<in> set b. 0 \<le> p \<and> p \<le> 255))"

text \<open>The rounding \<open>fl\<close> is monotone and leaves small integers unchanged.\<close>

lemma pow2_powi: "pow2 k = 2 powi k"
  by (simp add: pow2_def power_int_def inverse_eq_divide power_one_over)

lemma pow2_pos: "0 < pow2 k"
  by (simp add: pow2_powi)

lemma pow2_add: "pow2 (i + j) = pow2 i * pow2 j"
  by (simp add: pow2_powi power_int_add)

lemma pow2_mono: "i \<le> j \<Longrightarrow> pow2 i \<le> pow2 j"
  by (simp add: pow2_powi power_int_increasing)

lemma pow2_less_cancel: "pow2 i < pow2 j \<Longrightarrow> i < j"
  using pow2_mono [of j i] by (cases "i < j") auto

lemma bitlen_rat_bounds:
  assumes "0 < p"
  shows "pow2 (bitlen p - 1) \<le> of_int p" "of_int p < pow2 (bitlen p)"
proof -
  from bitlen_bounds [OF assms]
  have 1: "2 ^ nat (bitlen p - 1) \<le> p" and 2: "p < 2 ^ nat (bitlen p)" by simp_all
  have b: "1 \<le> bitlen p" using assms by (auto simp: bitlen_alt_def)
  from 1 have "(of_int (2 ^ nat (bitlen p - 1)) :: rat) \<le> of_int p" by (simp only: of_int_le_iff)
  then show "pow2 (bitlen p - 1) \<le> of_int p" using b by (simp add: pow2_def)
  from 2 have "(of_int p :: rat) < of_int (2 ^ nat (bitlen p))" by (simp only: of_int_less_iff)
  then show "of_int p < pow2 (bitlen p)" using b by (simp add: pow2_def)
qed

lemma binade_bounds:
  assumes "0 < a"
  shows "pow2 (binade a) \<le> a" "a < pow2 (binade a + 1)"
proof -
  obtain p q where pq: "quotient_of a = (p, q)" by (cases "quotient_of a")
  then have q: "0 < q" and a: "a = of_int p / of_int q"
    by (simp_all add: quotient_of_denom_pos quotient_of_div)
  have p: "0 < p" using assms a q by (simp add: zero_less_divide_iff)
  define k where "k = bitlen p - bitlen q"
  note bp = bitlen_rat_bounds [OF p] and bq = bitlen_rat_bounds [OF q]
  have qpos: "(0::rat) < of_int q" using q by simp
  have "a < pow2 (bitlen p) / pow2 (bitlen q - 1)"
    unfolding a using bp(2) bq(1) p pow2_pos [of "bitlen q - 1"]
    by (intro frac_less) simp_all
  also have "\<dots> = pow2 (k + 1)"
    using pow2_add [of "k + 1" "bitlen q - 1"] pow2_pos [of "bitlen q - 1"]
    by (simp add: k_def field_simps)
  finally have up: "a < pow2 (k + 1)" .
  have "pow2 (bitlen p - 1) / pow2 (bitlen q) < a"
    unfolding a using bp(1) bq(2) qpos pow2_pos [of "bitlen p - 1"]
    by (intro frac_less2) simp_all
  moreover have "pow2 (bitlen p - 1) / pow2 (bitlen q) = pow2 (k - 1)"
    using pow2_add [of "k - 1" "bitlen q"] pow2_pos [of "bitlen q"]
    by (simp add: k_def field_simps)
  ultimately have lo: "pow2 (k - 1) < a" by simp
  have b: "binade a = (if pow2 k \<le> a then k else k - 1)"
    by (simp add: binade_def pq k_def)
  show "pow2 (binade a) \<le> a" using lo by (simp add: b)
  show "a < pow2 (binade a + 1)" using up by (simp add: b)
qed

lemma binade_unique:
  assumes "pow2 e \<le> a" "a < pow2 (e + 1)"
  shows "binade a = e"
proof -
  have a: "0 < a" using assms(1) pow2_pos [of e] by simp
  note b = binade_bounds [OF a]
  have "e < binade a + 1" using assms(1) b(2) by (intro pow2_less_cancel) simp
  moreover have "binade a < e + 1" using assms(2) b(1) by (intro pow2_less_cancel) simp
  ultimately show ?thesis by simp
qed

lemma round_half_even_of_int: "round_half_even (of_int n) = n"
  by (simp add: round_half_even_def)

lemma round_half_even_mono: "r \<le> s \<Longrightarrow> round_half_even r \<le> round_half_even s"
proof -
  assume rs: "r \<le> s"
  have fr: "of_int \<lfloor>r\<rfloor> \<le> r" "r < of_int \<lfloor>r\<rfloor> + 1" by linarith+
  have fs: "of_int \<lfloor>s\<rfloor> \<le> s" "s < of_int \<lfloor>s\<rfloor> + 1" by linarith+
  have le: "\<lfloor>r\<rfloor> \<le> \<lfloor>s\<rfloor>" using rs by (rule floor_mono)
  show ?thesis
  proof (cases "\<lfloor>r\<rfloor> = \<lfloor>s\<rfloor>")
    case True
    with rs show ?thesis by (auto simp: round_half_even_def Let_def)
  next
    case False
    with le have "\<lfloor>r\<rfloor> + 1 \<le> \<lfloor>s\<rfloor>" by simp
    moreover have "round_half_even r \<le> \<lfloor>r\<rfloor> + 1" by (simp add: round_half_even_def Let_def)
    moreover have "\<lfloor>s\<rfloor> \<le> round_half_even s" by (simp add: round_half_even_def Let_def)
    ultimately show ?thesis by linarith
  qed
qed

lemma fl_pos_eq:
  "0 < a \<Longrightarrow> fl a = of_int (round_half_even (a / pow2 (binade a - 52))) * pow2 (binade a - 52)"
  by (simp add: fl_def Let_def)

lemma fl_minus: "fl (- x) = - fl x"
  by (simp add: fl_def Let_def sgn_minus)

lemma pow2_shift52: "pow2 e = pow2 (e - 52) * 2 ^ 52"
proof -
  have "e = (e - 52) + 52" by simp
  then have "pow2 e = pow2 ((e - 52) + 52)" by (rule arg_cong)
  also have "\<dots> = pow2 (e - 52) * pow2 52" by (rule pow2_add)
  also have "pow2 52 = 2 ^ 52" by (simp add: pow2_def)
  finally show ?thesis .
qed

lemma pow2_shift53: "pow2 (e + 1) = pow2 (e - 52) * 2 ^ 53"
proof -
  have "e + 1 = (e - 52) + 53" by simp
  then have "pow2 (e + 1) = pow2 ((e - 52) + 53)" by (rule arg_cong)
  also have "\<dots> = pow2 (e - 52) * pow2 53" by (rule pow2_add)
  also have "pow2 53 = 2 ^ 53" by (simp add: pow2_def)
  finally show ?thesis .
qed

lemma scaled_bounds:
  assumes "0 < a"
  shows "of_int (2 ^ 52) \<le> a / pow2 (binade a - 52)" "a / pow2 (binade a - 52) \<le> of_int (2 ^ 53)"
proof -
  note b = binade_bounds [OF assms]
  have 1: "pow2 (binade a) = pow2 (binade a - 52) * 2 ^ 52" by (rule pow2_shift52)
  have 2: "pow2 (binade a + 1) = pow2 (binade a - 52) * 2 ^ 53" by (rule pow2_shift53)
  show "of_int (2 ^ 52) \<le> a / pow2 (binade a - 52)"
    using b(1) pow2_pos [of "binade a - 52"] unfolding 1 by (simp add: field_simps)
  show "a / pow2 (binade a - 52) \<le> of_int (2 ^ 53)"
    using b(2) pow2_pos [of "binade a - 52"] unfolding 2 by (simp add: field_simps)
qed

lemma fl_bounds:
  assumes "0 < a"
  shows "pow2 (binade a) \<le> fl a" "fl a \<le> pow2 (binade a + 1)"
proof -
  let ?u = "pow2 (binade a - 52)"
  let ?m = "round_half_even (a / ?u)"
  note s = scaled_bounds [OF assms]
  have "round_half_even (of_int (2 ^ 52)) \<le> ?m" using s(1) by (rule round_half_even_mono)
  then have lo: "2 ^ 52 \<le> ?m" by (simp only: round_half_even_of_int)
  have "?m \<le> round_half_even (of_int (2 ^ 53))" using s(2) by (rule round_half_even_mono)
  then have hi: "?m \<le> 2 ^ 53" by (simp only: round_half_even_of_int)
  have 1: "pow2 (binade a) = ?u * 2 ^ 52" by (rule pow2_shift52)
  have 2: "pow2 (binade a + 1) = ?u * 2 ^ 53" by (rule pow2_shift53)
  from lo have "(of_int (2 ^ 52) :: rat) \<le> of_int ?m" by (simp only: of_int_le_iff)
  then show "pow2 (binade a) \<le> fl a"
    using pow2_pos [of "binade a - 52"] unfolding 1 fl_pos_eq [OF assms] by (simp add: mult.commute)
  from hi have "(of_int ?m :: rat) \<le> of_int (2 ^ 53)" by (simp only: of_int_le_iff)
  then show "fl a \<le> pow2 (binade a + 1)"
    using pow2_pos [of "binade a - 52"] unfolding 2 fl_pos_eq [OF assms] by (simp add: mult.commute)
qed

lemma fl_pos: "0 < a \<Longrightarrow> 0 < fl a"
  using fl_bounds(1) [of a] pow2_pos [of "binade a"] by simp

lemma fl_mono_pos:
  assumes "0 < x" "x \<le> y"
  shows "fl x \<le> fl y"
proof -
  have y: "0 < y" using assms by simp
  note bx = binade_bounds [OF assms(1)] and bY = binade_bounds [OF y]
  have "pow2 (binade x) < pow2 (binade y + 1)" using bx(1) bY(2) assms(2) by simp
  then have le: "binade x \<le> binade y" using pow2_less_cancel by fastforce
  show ?thesis
  proof (cases "binade x = binade y")
    case True
    let ?u = "pow2 (binade y - 52)"
    have "x / ?u \<le> y / ?u" using assms(2) pow2_pos [of "binade y - 52"] by (simp add: divide_right_mono)
    then have "round_half_even (x / ?u) \<le> round_half_even (y / ?u)" by (rule round_half_even_mono)
    then have "(of_int (round_half_even (x / ?u)) :: rat) \<le> of_int (round_half_even (y / ?u))"
      by (simp only: of_int_le_iff)
    then show ?thesis
      using pow2_pos [of "binade y - 52"] unfolding fl_pos_eq [OF assms(1)] fl_pos_eq [OF y] True
      by (simp add: mult_right_mono)
  next
    case False
    with le have "binade x + 1 \<le> binade y" by simp
    then have "pow2 (binade x + 1) \<le> pow2 (binade y)" by (rule pow2_mono)
    with fl_bounds(2) [OF assms(1)] fl_bounds(1) [OF y] show ?thesis by linarith
  qed
qed

lemma fl_zero: "fl 0 = 0"
  by (simp add: fl_def)

lemma fl_mono: "x \<le> y \<Longrightarrow> fl x \<le> fl y"
proof -
  assume xy: "x \<le> y"
  consider "0 < x" | "x \<le> 0" "0 < y" | "x < 0" "y = 0" | "x = 0" "y = 0" | "x < 0" "y < 0"
    using xy by linarith
  then show ?thesis
  proof cases
    case 1
    then show ?thesis using xy by (rule fl_mono_pos)
  next
    case 2
    have "fl x \<le> 0"
    proof (cases "x = 0")
      case True then show ?thesis by (simp add: fl_zero)
    next
      case False
      with 2 have "0 < - x" by simp
      then have "0 < fl (- x)" by (rule fl_pos)
      then show ?thesis by (simp add: fl_minus)
    qed
    moreover have "0 < fl y" using 2(2) by (rule fl_pos)
    ultimately show ?thesis by simp
  next
    case 3
    then have "0 < fl (- x)" by (intro fl_pos) simp
    with 3 show ?thesis by (simp add: fl_minus fl_zero)
  next
    case 4
    then show ?thesis by simp
  next
    case 5
    then have "fl (- y) \<le> fl (- x)" using xy by (intro fl_mono_pos) simp_all
    then show ?thesis by (simp add: fl_minus)
  qed
qed

lemma fl_of_nat_small:
  assumes "0 < k" "k \<le> 2 ^ 53"
  shows "fl (of_int k) = of_int k"
proof -
  let ?a = "of_int k :: rat"
  have a: "0 < ?a" using assms(1) by simp
  note b = binade_bounds [OF a]
  have "pow2 (binade ?a) \<le> pow2 53"
  proof -
    have "?a \<le> of_int (2 ^ 53)" using assms(2) by (simp only: of_int_le_iff)
    then show ?thesis using b(1) by (simp add: pow2_def)
  qed
  then have e53: "binade ?a \<le> 53"
    using pow2_mono [of 54 "binade ?a"] by (cases "binade ?a \<le> 53") (auto simp: pow2_def)
  show ?thesis
  proof (cases "binade ?a = 53")
    case True
    with b(1) have "pow2 53 \<le> ?a" by simp
    then have "(of_int (2 ^ 53) :: rat) \<le> of_int k" by (simp add: pow2_def)
    then have "2 ^ 53 \<le> k" by (simp only: of_int_le_iff)
    with assms(2) have k: "k = 2 ^ 53" by simp
    have "?a / pow2 (binade ?a - 52) = of_int (2 ^ 52)"
      unfolding True by (simp add: k pow2_def)
    then show ?thesis
      unfolding fl_pos_eq [OF a] by (simp only: round_half_even_of_int True) (simp add: k pow2_def)
  next
    case False
    with e53 have e: "binade ?a \<le> 52" by simp
    define n where "n = nat (52 - binade ?a)"
    have u: "pow2 (binade ?a - 52) = 1 / 2 ^ n"
      using e pow2_add [of "binade ?a - 52" "52 - binade ?a"]
      by (simp add: n_def pow2_def field_simps split: if_splits)
    have "?a / pow2 (binade ?a - 52) = of_int (k * 2 ^ n)" by (simp add: u)
    then show ?thesis
      unfolding fl_pos_eq [OF a] by (simp only: round_half_even_of_int) (simp add: u)
  qed
qed

lemma rnd_ok_fl: "rnd_ok fl"
proof -
  have "fl (of_int k) = of_int k" if k1: "- 1 \<le> k" and k2: "k \<le> 256" for k :: int
  proof -
    consider "k = - 1" | "k = 0" | "0 < k" using k1 by linarith
    then show ?thesis
    proof cases
      case 1
      have "fl (of_int 1) = of_int 1" by (rule fl_of_nat_small) simp_all
      then show ?thesis using fl_minus [of 1] by (simp add: 1)
    next
      case 2
      then show ?thesis by (simp add: fl_zero)
    next
      case 3
      then show ?thesis using k2 by (intro fl_of_nat_small) simp_all
    qed
  qed
  then show ?thesis using fl_mono by (simp add: rnd_ok_def)
qed

lemma length_filter_le_step:
  "int (length (filter (\<lambda>p. p \<le> int t) px)) =
     int (length (filter (\<lambda>p. p < int t) px)) + int (count_list px (int t))"
  by (induction px) auto

lemma sum_filter_le_step:
  "sum_list (filter (\<lambda>p. p \<le> int t) px) =
     sum_list (filter (\<lambda>p. p < int t) px) + int t * int (count_list px (int t))"
  by (induction px) (auto simp: algebra_simps)

lemma filter_less_Suc: "filter (\<lambda>p. p < int (Suc t)) px = filter (\<lambda>p. p \<le> int t) px"
  by (rule filter_cong) auto

lemma length_filter_split:
  "int (length px) - int (length (filter (\<lambda>p. p \<le> int t) px)) = int (length (filter (\<lambda>p. int t < p) px))"
  by (induction px) auto

lemma sum_filter_split:
  "sum_list px - sum_list (filter (\<lambda>p. p \<le> int t) px) = sum_list (filter (\<lambda>p. int t < p) px)"
  by (induction px) auto

lemma sum_list_le_bound: "(\<forall>p \<in> set xs. p \<le> (c::int)) \<Longrightarrow> sum_list xs \<le> c * int (length xs)"
  by (induction xs) (auto simp: algebra_simps)

lemma sum_list_ge_bound: "(\<forall>p \<in> set xs. (c::int) \<le> p) \<Longrightarrow> c * int (length xs) \<le> sum_list xs"
  by (induction xs) (auto simp: algebra_simps)

lemma one_le_mult: "1 \<le> a \<Longrightarrow> 1 \<le> b \<Longrightarrow> (1::rat) \<le> a * b"
  using mult_mono [of 1 a 1 b] by simp

lemma otsu_variance_pos:
  assumes ok: "rnd_ok rnd" and t: "t < 256"
    and wb: "0 < w_bg" and wf: "0 < w_fg"
    and sb: "s_bg \<le> int t * w_bg" and sf: "(int t + 1) * w_fg \<le> total_sum - s_bg"
  shows "1 \<le> otsu_variance rnd w_bg w_fg s_bg total_sum"
proof -
  from ok have mono: "\<And>x y. x \<le> y \<Longrightarrow> rnd x \<le> rnd y"
    and fixi: "\<And>k::int. - 1 \<le> k \<Longrightarrow> k \<le> 256 \<Longrightarrow> rnd (of_int k) = of_int k"
    by (auto simp: rnd_ok_def)
  define mb where "mb = rnd (of_int s_bg / of_int w_bg)"
  define mf where "mf = rnd (of_int (total_sum - s_bg) / of_int w_fg)"
  have "(of_int s_bg :: rat) \<le> of_int (int t * w_bg)" using sb by (simp only: of_int_le_iff)
  then have "(of_int s_bg :: rat) / of_int w_bg \<le> of_int (int t)"
    using wb by (simp add: divide_le_eq)
  then have "mb \<le> rnd (of_int (int t))" unfolding mb_def by (rule mono)
  then have mb: "mb \<le> of_int (int t)" using fixi [of "int t"] t by simp
  have "(of_int ((int t + 1) * w_fg) :: rat) \<le> of_int (total_sum - s_bg)"
    using sf by (simp only: of_int_le_iff)
  then have "(of_int (int t + 1) :: rat) \<le> of_int (total_sum - s_bg) / of_int w_fg"
    using wf by (simp add: le_divide_eq)
  then have "rnd (of_int (int t + 1)) \<le> mf" unfolding mf_def by (rule mono)
  then have mf: "of_int (int t + 1) \<le> mf" using fixi [of "int t + 1"] t by simp
  have "mb - mf \<le> of_int (- 1)" using mb mf by simp
  then have "rnd (mb - mf) \<le> rnd (of_int (- 1))" by (rule mono)
  then have d: "rnd (mb - mf) \<le> - 1" using fixi [of "- 1"] by simp
  have "1 \<le> (rnd (mb - mf))\<^sup>2"
  proof -
    have "1 \<le> (- rnd (mb - mf)) * (- rnd (mb - mf))"
      using d by (intro one_le_mult) auto
    then show ?thesis by (simp add: power2_eq_square)
  qed
  then have "rnd (of_int 1) \<le> rnd ((rnd (mb - mf))\<^sup>2)" by (intro mono) simp
  then have sq: "1 \<le> rnd ((rnd (mb - mf))\<^sup>2)" using fixi [of 1] by simp
  have "1 \<le> w_bg * w_fg" using wb wf by (simp add: mult_pos_pos int_one_le_iff_zero_less)
  then have "(of_int 1 :: rat) \<le> of_int (w_bg * w_fg)" by (simp only: of_int_le_iff)
  then have "rnd (of_int 1) \<le> rnd (of_int (w_bg * w_fg))" by (rule mono)
  then have w: "1 \<le> rnd (of_int (w_bg * w_fg))" using fixi [of 1] by simp
  have "1 \<le> rnd (of_int (w_bg * w_fg)) * rnd ((rnd (mb - mf))\<^sup>2)"
    using w sq by (rule one_le_mult)
  then have "rnd (of_int 1) \<le> rnd (rnd (of_int (w_bg * w_fg)) * rnd ((rnd (mb - mf))\<^sup>2))"
    by (intro mono) simp
  then show ?thesis
    using fixi [of 1] by (simp add: otsu_variance_def Let_def mb_def mf_def)
qed

lemma band_histogram_nth: "t < 256 \<Longrightarrow> band_histogram px ! t = int (count_list px (int t))"
  by (simp add: band_histogram_def)

lemma splits_iff_lengths:
  "splits px t \<longleftrightarrow>
     0 < length (filter (\<lambda>p. p \<le> int t) px) \<and> 0 < length (filter (\<lambda>p. int t < p) px)"
  by (auto simp: splits_def filter_empty_conv)

lemma otsu_variance_eq_bcv:
  "otsu_variance rnd (int (length (filter (\<lambda>p. p \<le> int t) px)))
     (int (length px) - int (length (filter (\<lambda>p. p \<le> int t) px)))
     (sum_list (filter (\<lambda>p. p \<le> int t) px)) (sum_list px)
   = computed_variance rnd px t"
  by (simp add: otsu_variance_def computed_variance_def Let_def
      length_filter_split sum_filter_split)

lemma bcv_pos:
  assumes "rnd_ok rnd" "t < 256" "splits px t"
  shows "1 \<le> computed_variance rnd px t"
proof -
  let ?bg = "filter (\<lambda>p. p \<le> int t) px"
  let ?fg = "filter (\<lambda>p. int t < p) px"
  have 1: "0 < int (length ?bg)" and 2: "0 < int (length px) - int (length ?bg)"
    using assms(3) by (simp_all add: splits_iff_lengths length_filter_split)
  have 3: "sum_list ?bg \<le> int t * int (length ?bg)"
    by (rule sum_list_le_bound) simp
  have "(int t + 1) * int (length ?fg) \<le> sum_list ?fg"
    by (rule sum_list_ge_bound) simp
  then have 4: "(int t + 1) * (int (length px) - int (length ?bg)) \<le> sum_list px - sum_list ?bg"
    by (simp only: length_filter_split sum_filter_split)
  show ?thesis
    using otsu_variance_pos [OF assms(1,2) 1 2 3 4] by (simp only: otsu_variance_eq_bcv)
qed

lemma best_uptoD:
  assumes "best_upto rnd px t s" "\<exists>u<t. splits px u"
  shows "splits px (best_threshold s)" "best_threshold s < t"
    "best_variance s = computed_variance rnd px (best_threshold s)"
    "\<forall>u<t. splits px u \<longrightarrow> computed_variance rnd px u \<le> best_variance s"
    "\<forall>u<best_threshold s. splits px u \<longrightarrow> computed_variance rnd px u < best_variance s"
  using assms unfolding best_upto_def by (auto split: if_splits)

lemma best_uptoI:
  assumes "\<exists>u<t. splits px u" "splits px (best_threshold s)" "best_threshold s < t"
    "best_variance s = computed_variance rnd px (best_threshold s)"
    "\<forall>u<t. splits px u \<longrightarrow> computed_variance rnd px u \<le> best_variance s"
    "\<forall>u<best_threshold s. splits px u \<longrightarrow> computed_variance rnd px u < best_variance s"
  shows "best_upto rnd px t s"
  using assms unfolding best_upto_def by auto

lemma best_upto_none:
  "\<not> (\<exists>u<t. splits px u) \<Longrightarrow>
     best_upto rnd px t s \<longleftrightarrow> best_threshold s = 128 \<and> best_variance s = 0"
  unfolding best_upto_def by auto

lemma best_upto_skip:
  assumes "best_upto rnd px t s" "\<not> splits px t"
    and bt: "best_threshold s' = best_threshold s" and bv: "best_variance s' = best_variance s"
  shows "best_upto rnd px (Suc t) s'"
proof (cases "\<exists>u<t. splits px u")
  case True
  note b = best_uptoD [OF assms(1) True]
  show ?thesis
  proof (rule best_uptoI)
    show "\<exists>u<Suc t. splits px u" using True less_Suc_eq by blast
    show "splits px (best_threshold s')" using b(1) bt by simp
    show "best_threshold s' < Suc t" using b(2) bt by simp
    show "best_variance s' = computed_variance rnd px (best_threshold s')"
      using b(3) bt bv by simp
    show "\<forall>u<Suc t. splits px u \<longrightarrow> computed_variance rnd px u \<le> best_variance s'"
      using b(4) assms(2) bv less_Suc_eq by metis
    show "\<forall>u<best_threshold s'. splits px u \<longrightarrow> computed_variance rnd px u < best_variance s'"
      using b(5) bt bv by simp
  qed
next
  case False
  then have "\<not> (\<exists>u<Suc t. splits px u)" using assms(2) less_Suc_eq by metis
  moreover from False assms(1) have "best_threshold s = 128 \<and> best_variance s = 0"
    by (simp add: best_upto_none)
  ultimately show ?thesis using bt bv by (simp add: best_upto_none)
qed

lemma best_upto_break:
  assumes "best_upto rnd px t s" "\<forall>u\<ge>t. \<not> splits px u" "t \<le> n"
    and bt: "best_threshold s' = best_threshold s" and bv: "best_variance s' = best_variance s"
  shows "best_upto rnd px n s'"
proof (cases "\<exists>u<t. splits px u")
  case True
  note b = best_uptoD [OF assms(1) True]
  have lt: "\<And>u. splits px u \<Longrightarrow> u < t" using assms(2) by (meson not_le)
  show ?thesis
  proof (rule best_uptoI)
    show "\<exists>u<n. splits px u" using True assms(3) by (meson less_le_trans)
    show "splits px (best_threshold s')" using b(1) bt by simp
    show "best_threshold s' < n" using b(2) bt assms(3) by simp
    show "best_variance s' = computed_variance rnd px (best_threshold s')"
      using b(3) bt bv by simp
    show "\<forall>u<n. splits px u \<longrightarrow> computed_variance rnd px u \<le> best_variance s'"
      using b(4) lt bv by simp
    show "\<forall>u<best_threshold s'. splits px u \<longrightarrow> computed_variance rnd px u < best_variance s'"
      using b(5) bt bv by simp
  qed
next
  case False
  have lt: "\<And>u. splits px u \<Longrightarrow> u < t" using assms(2) by (meson not_le)
  with False have "\<not> (\<exists>u<n. splits px u)" by blast
  moreover from False assms(1) have "best_threshold s = 128 \<and> best_variance s = 0"
    by (simp add: best_upto_none)
  ultimately show ?thesis using bt bv by (simp add: best_upto_none)
qed

lemma best_upto_new:
  assumes "best_upto rnd px t s" "splits px t"
    and gt: "best_variance s < computed_variance rnd px t"
    and bt: "best_threshold s' = t" and bv: "best_variance s' = computed_variance rnd px t"
  shows "best_upto rnd px (Suc t) s'"
proof -
  have le: "\<forall>u<t. splits px u \<longrightarrow> computed_variance rnd px u \<le> best_variance s"
  proof (cases "\<exists>u<t. splits px u")
    case True
    from best_uptoD(4) [OF assms(1) True] show ?thesis .
  next
    case False
    then show ?thesis by blast
  qed
  show ?thesis
  proof (rule best_uptoI)
    show "\<exists>u<Suc t. splits px u" using assms(2) by blast
    show "splits px (best_threshold s')" using assms(2) bt by simp
    show "best_threshold s' < Suc t" using bt by simp
    show "best_variance s' = computed_variance rnd px (best_threshold s')"
      using bt bv by simp
    show "\<forall>u<Suc t. splits px u \<longrightarrow> computed_variance rnd px u \<le> best_variance s'"
    proof (intro allI impI)
      fix u assume "u < Suc t" "splits px u"
      then consider "u < t" | "u = t" by linarith
      then show "computed_variance rnd px u \<le> best_variance s'"
      proof cases
        case 1
        with le \<open>splits px u\<close> have "computed_variance rnd px u \<le> best_variance s" by blast
        with gt bv show ?thesis by simp
      next
        case 2
        with bv show ?thesis by simp
      qed
    qed
    show "\<forall>u<best_threshold s'. splits px u \<longrightarrow> computed_variance rnd px u < best_variance s'"
    proof (intro allI impI)
      fix u assume "u < best_threshold s'" "splits px u"
      with le bt have "computed_variance rnd px u \<le> best_variance s" by simp
      with gt bv show "computed_variance rnd px u < best_variance s'" by simp
    qed
  qed
qed

lemma best_upto_keep:
  assumes "best_upto rnd px t s" "splits px t"
    and ngt: "\<not> best_variance s < computed_variance rnd px t"
    and pos: "0 < computed_variance rnd px t"
    and bt: "best_threshold s' = best_threshold s" and bv: "best_variance s' = best_variance s"
  shows "best_upto rnd px (Suc t) s'"
proof -
  have ex: "\<exists>u<t. splits px u"
  proof (rule ccontr)
    assume "\<not> ?thesis"
    with assms(1) have "best_threshold s = 128 \<and> best_variance s = 0"
      by (simp add: best_upto_none)
    with ngt pos show False by simp
  qed
  note b = best_uptoD [OF assms(1) ex]
  show ?thesis
  proof (rule best_uptoI)
    show "\<exists>u<Suc t. splits px u" using assms(2) by blast
    show "splits px (best_threshold s')" using b(1) bt by simp
    show "best_threshold s' < Suc t" using b(2) bt by simp
    show "best_variance s' = computed_variance rnd px (best_threshold s')"
      using b(3) bt bv by simp
    show "\<forall>u<Suc t. splits px u \<longrightarrow> computed_variance rnd px u \<le> best_variance s'"
    proof (intro allI impI)
      fix u assume "u < Suc t" "splits px u"
      then consider "u < t" | "u = t" by linarith
      then show "computed_variance rnd px u \<le> best_variance s'"
      proof cases
        case 1
        with b(4) \<open>splits px u\<close> bv show ?thesis by simp
      next
        case 2
        with ngt bv show ?thesis by simp
      qed
    qed
    show "\<forall>u<best_threshold s'. splits px u \<longrightarrow> computed_variance rnd px u < best_variance s'"
      using b(5) bt bv by simp
  qed
qed

lemma otsu_loop_correct:
  assumes ok: "rnd_ok rnd"
    and hist: "\<And>i. i < 256 \<Longrightarrow> hist ! i = int (count_list px (int i))"
    and N: "total_pixels = int (length px)" and S: "total_sum = sum_list px"
  shows "t \<le> 256 \<Longrightarrow>
         weight_bg s = int (length (filter (\<lambda>p. p < int t) px)) \<Longrightarrow>
         sum_bg s = sum_list (filter (\<lambda>p. p < int t) px) \<Longrightarrow>
         best_upto rnd px t s \<Longrightarrow>
         best_upto rnd px 256 (otsu_loop rnd hist total_pixels total_sum t s)"
proof (induction "256 - t" arbitrary: t s)
  case 0
  then have "256 \<le> t" by simp
  with "0.prems" show ?case by (subst otsu_loop.simps) simp
next
  case (Suc n)
  then have t: "t < 256" by simp
  have n: "n = 256 - Suc t" using Suc.hyps(2) by simp
  let ?bg = "filter (\<lambda>p. p \<le> int t) px"
  let ?W = "int (length ?bg)"
  let ?S = "sum_list ?bg"
  have W: "weight_bg s + hist ! t = ?W"
    using Suc.prems(2) hist [OF t] length_filter_le_step [of t px] by simp
  have Sm: "sum_bg s + int t * hist ! t = ?S"
    using Suc.prems(3) hist [OF t] sum_filter_le_step [of t px] by simp
  have Wn: "?W = int (length (filter (\<lambda>p. p < int (Suc t)) px))" by (simp only: filter_less_Suc)
  have Sn: "?S = sum_list (filter (\<lambda>p. p < int (Suc t)) px)" by (simp only: filter_less_Suc)
  show ?case
  proof (cases "?W = 0")
    case True
    then have e: "?bg = []" by simp
    then have ns: "\<not> splits px t" by (simp add: splits_iff_lengths)
    have "0 \<le> hist ! t" using hist [OF t] by simp
    moreover have "0 \<le> weight_bg s" using Suc.prems(2) by simp
    ultimately have "hist ! t = 0" using True W by linarith
    then have s0: "sum_bg s = ?S" using Sm by simp
    let ?s = "s\<lparr>weight_bg := ?W\<rparr>"
    have b: "best_upto rnd px (Suc t) ?s"
      by (rule best_upto_skip [OF Suc.prems(4) ns]) simp_all
    have "best_upto rnd px 256 (otsu_loop rnd hist total_pixels total_sum (Suc t) ?s)"
      using t s0 Sn Wn b by (intro Suc.hyps(1) [OF n]) simp_all
    moreover have "otsu_loop rnd hist total_pixels total_sum t s
        = otsu_loop rnd hist total_pixels total_sum (Suc t) ?s"
      using t True W by (subst otsu_loop.simps) (simp add: Let_def)
    ultimately show ?thesis by simp
  next
    case Wpos: False
    show ?thesis
    proof (cases "total_pixels - ?W = 0")
      case True
      then have "filter (\<lambda>p. int t < p) px = []"
        using length_filter_split [of px t] N by simp
      then have "\<forall>u\<ge>t. \<not> splits px u"
        by (fastforce simp: splits_def filter_empty_conv)
      then have "best_upto rnd px 256 (s\<lparr>weight_bg := ?W\<rparr>)"
        using t by (intro best_upto_break [OF Suc.prems(4)]) simp_all
      moreover have "otsu_loop rnd hist total_pixels total_sum t s = s\<lparr>weight_bg := ?W\<rparr>"
        using t True Wpos W by (subst otsu_loop.simps) (simp add: Let_def)
      ultimately show ?thesis by simp
    next
      case Fpos: False
      have sp: "splits px t"
        using Wpos Fpos N length_filter_split [of px t] by (simp add: splits_iff_lengths)
      let ?v = "computed_variance rnd px t"
      have v: "otsu_variance rnd ?W (total_pixels - ?W) ?S total_sum = ?v"
        unfolding N S by (rule otsu_variance_eq_bcv)
      have vpos: "0 < ?v" using bcv_pos [OF ok t sp] by simp
      let ?s' = "s\<lparr>weight_bg := ?W, sum_bg := ?S\<rparr>"
      show ?thesis
      proof (cases "best_variance s < ?v")
        case True
        let ?s = "?s'\<lparr>best_variance := ?v, best_threshold := t\<rparr>"
        have b: "best_upto rnd px (Suc t) ?s"
          by (rule best_upto_new [OF Suc.prems(4) sp True]) simp_all
        have "best_upto rnd px 256 (otsu_loop rnd hist total_pixels total_sum (Suc t) ?s)"
          using t Sn Wn b by (intro Suc.hyps(1) [OF n]) simp_all
        moreover have "otsu_loop rnd hist total_pixels total_sum t s
            = otsu_loop rnd hist total_pixels total_sum (Suc t) ?s"
          using t True Wpos Fpos W Sm v by (subst otsu_loop.simps) (simp add: Let_def)
        ultimately show ?thesis by simp
      next
        case False
        have b: "best_upto rnd px (Suc t) ?s'"
          by (rule best_upto_keep [OF Suc.prems(4) sp False vpos]) simp_all
        have "best_upto rnd px 256 (otsu_loop rnd hist total_pixels total_sum (Suc t) ?s')"
          using t Sn Wn b by (intro Suc.hyps(1) [OF n]) simp_all
        moreover have "otsu_loop rnd hist total_pixels total_sum t s
            = otsu_loop rnd hist total_pixels total_sum (Suc t) ?s'"
          using t False Wpos Fpos W Sm v by (subst otsu_loop.simps) (simp add: Let_def)
        ultimately show ?thesis by simp
      qed
    qed
  qed
qed

lemma otsu_loop_range:
  assumes hist: "\<And>i. i < 256 \<Longrightarrow> hist ! i = int (count_list px (int i))"
    and N: "total_pixels = int (length px)"
  shows "t \<le> 256 \<Longrightarrow>
         weight_bg s = int (length (filter (\<lambda>p. p < int t) px)) \<Longrightarrow>
         best_threshold s = 128 \<or> splits px (best_threshold s) \<Longrightarrow>
         best_threshold (otsu_loop rnd hist total_pixels total_sum t s) = 128 \<or>
         splits px (best_threshold (otsu_loop rnd hist total_pixels total_sum t s))"
proof (induction "256 - t" arbitrary: t s)
  case 0
  then have "256 \<le> t" by simp
  with "0.prems" show ?case by (subst (1 2) otsu_loop.simps) simp
next
  case (Suc n)
  then have t: "t < 256" by simp
  have n: "n = 256 - Suc t" using Suc.hyps(2) by simp
  let ?bg = "filter (\<lambda>p. p \<le> int t) px"
  let ?W = "int (length ?bg)"
  let ?r = "\<lambda>s. otsu_loop rnd hist total_pixels total_sum (Suc t) s"
  have W: "weight_bg s + hist ! t = ?W"
    using Suc.prems(2) hist [OF t] length_filter_le_step [of t px] by simp
  have Wn: "?W = int (length (filter (\<lambda>p. p < int (Suc t)) px))"
    by (simp only: filter_less_Suc)
  have IH: "best_threshold (?r s') = 128 \<or> splits px (best_threshold (?r s'))"
    if "weight_bg s' = ?W" "best_threshold s' = 128 \<or> splits px (best_threshold s')" for s'
    using t that Wn by (intro Suc.hyps(1) [OF n]) simp_all
  show ?case
  proof (cases "?W = 0")
    case True
    have "otsu_loop rnd hist total_pixels total_sum t s = ?r (s\<lparr>weight_bg := ?W\<rparr>)"
      using t True W by (subst otsu_loop.simps) (simp add: Let_def)
    moreover have "best_threshold (?r (s\<lparr>weight_bg := ?W\<rparr>)) = 128 \<or>
        splits px (best_threshold (?r (s\<lparr>weight_bg := ?W\<rparr>)))"
      using Suc.prems(3) by (intro IH) simp_all
    ultimately show ?thesis by simp
  next
    case Wpos: False
    show ?thesis
    proof (cases "total_pixels - ?W = 0")
      case True
      have "otsu_loop rnd hist total_pixels total_sum t s = s\<lparr>weight_bg := ?W\<rparr>"
        using t True Wpos W by (subst otsu_loop.simps) (simp add: Let_def)
      with Suc.prems(3) show ?thesis by simp
    next
      case Fpos: False
      have sp: "splits px t"
        using Wpos Fpos N length_filter_split [of px t] by (simp add: splits_iff_lengths)
      let ?S = "sum_bg s + int t * hist ! t"
      let ?v = "otsu_variance rnd ?W (total_pixels - ?W) ?S total_sum"
      let ?s' = "s\<lparr>weight_bg := ?W, sum_bg := ?S\<rparr>"
      show ?thesis
      proof (cases "best_variance s < ?v")
        case True
        let ?s = "?s'\<lparr>best_variance := ?v, best_threshold := t\<rparr>"
        have "otsu_loop rnd hist total_pixels total_sum t s = ?r ?s"
          using t True Wpos Fpos W by (subst otsu_loop.simps) (simp add: Let_def)
        moreover have "best_threshold (?r ?s) = 128 \<or> splits px (best_threshold (?r ?s))"
          using sp by (intro IH) simp_all
        ultimately show ?thesis by simp
      next
        case False
        have "otsu_loop rnd hist total_pixels total_sum t s = ?r ?s'"
          using t False Wpos Fpos W by (subst otsu_loop.simps) (simp add: Let_def)
        moreover have "best_threshold (?r ?s') = 128 \<or> splits px (best_threshold (?r ?s'))"
          using Suc.prems(3) by (intro IH) simp_all
        ultimately show ?thesis by simp
      qed
    qed
  qed
qed

lemma filter_less_zero: "\<forall>p \<in> set px. (0::int) \<le> p \<Longrightarrow> filter (\<lambda>p. p < int 0) px = []"
  by (auto simp: filter_empty_conv)

lemma weighted_count_sum:
  "\<forall>p \<in> set px. 0 \<le> p \<Longrightarrow>
     (\<Sum>i\<leftarrow>[0..<n]. int i * int (count_list px (int i))) = sum_list (filter (\<lambda>p. p < int n) px)"
proof (induction n)
  case 0
  then show ?case using filter_less_zero [of px] by simp
next
  case (Suc n)
  then show ?case
    by (simp only: filter_less_Suc sum_filter_le_step [of n px] upt_Suc_append le0 if_True
        map_append sum_list_append list.map sum_list.Nil sum_list.Cons)
qed

lemma filter_all: "\<forall>p \<in> set px. p \<le> (255::int) \<Longrightarrow> filter (\<lambda>p. p < int 256) px = px"
  by (rule filter_True) auto

text \<open>What a well-formed single-band image gives \<open>_otsu_threshold\<close> to work with.\<close>

lemma gray_image_facts:
  assumes "wf_image img" "bands img = [px]"
  shows "length px = fst (imsize img) * snd (imsize img)"
    and "\<forall>p \<in> set px. 0 \<le> p \<and> p \<le> 255"
    and "histogram img = band_histogram px"
  using assms by (auto simp: wf_image_def histogram_def)

lemma otsu_total_sum:
  assumes "\<forall>p \<in> set px. 0 \<le> p \<and> p \<le> 255"
  shows "(\<Sum>i\<leftarrow>[0..<256]. int i * band_histogram px ! i) = sum_list px"
proof -
  have "(\<Sum>i\<leftarrow>[0..<256]. int i * band_histogram px ! i)
      = (\<Sum>i\<leftarrow>[0..<256]. int i * int (count_list px (int i)))"
    by (rule arg_cong [where f = sum_list], rule map_cong) (simp_all add: band_histogram_nth)
  also have "\<dots> = sum_list (filter (\<lambda>p. p < int 256) px)"
    using assms by (intro weighted_count_sum) blast
  also have "\<dots> = sum_list px"
    using assms by (subst filter_all) auto
  finally show ?thesis .
qed

lemma otsu_threshold_unfold:
  assumes "wf_image img" "bands img = [px]"
  shows "otsu_threshold rnd img =
     best_threshold (otsu_loop rnd (band_histogram px) (int (length px)) (sum_list px) 0 otsu_init)"
  using gray_image_facts [OF assms] otsu_total_sum [of px]
  by (simp add: otsu_threshold_def Let_def otsu_init_def)

lemma otsu_threshold_best:
  assumes "wf_image img" "bands img = [px]" "rnd_ok rnd"
  shows "\<exists>s. otsu_threshold rnd img = best_threshold s \<and> best_upto rnd px 256 s"
proof -
  have nn: "\<forall>p \<in> set px. 0 \<le> p" using gray_image_facts(2) [OF assms(1,2)] by blast
  have "best_upto rnd px 256
     (otsu_loop rnd (band_histogram px) (int (length px)) (sum_list px) 0 otsu_init)"
  proof (rule otsu_loop_correct [OF assms(3) _ refl refl])
    show "band_histogram px ! i = int (count_list px (int i))" if "i < 256" for i
      using that by (rule band_histogram_nth)
    show "weight_bg otsu_init = int (length (filter (\<lambda>p. p < int 0) px))"
      using filter_less_zero [OF nn] by (simp add: otsu_init_def)
    show "sum_bg otsu_init = sum_list (filter (\<lambda>p. p < int 0) px)"
      using filter_less_zero [OF nn] by (simp add: otsu_init_def)
    show "best_upto rnd px 0 otsu_init" by (simp add: best_upto_def otsu_init_def)
  qed simp
  then show ?thesis using otsu_threshold_unfold [OF assms(1,2)] by blast
qed

lemma otsu_threshold_range:
  assumes "wf_image img" "bands img = [px]"
  shows "otsu_threshold rnd img = 128 \<or> splits px (otsu_threshold rnd img)"
proof -
  have nn: "\<forall>p \<in> set px. 0 \<le> p" using gray_image_facts(2) [OF assms(1,2)] by blast
  have "best_threshold (otsu_loop rnd (band_histogram px) (int (length px)) (sum_list px) 0 otsu_init) = 128
     \<or> splits px (best_threshold (otsu_loop rnd (band_histogram px) (int (length px)) (sum_list px) 0 otsu_init))"
  proof (rule otsu_loop_range [OF _ refl])
    show "band_histogram px ! i = int (count_list px (int i))" if "i < 256" for i
      using that by (rule band_histogram_nth)
    show "weight_bg otsu_init = int (length (filter (\<lambda>p. p < int 0) px))"
      using filter_less_zero [OF nn] by (simp add: otsu_init_def)
    show "best_threshold otsu_init = 128 \<or> splits px (best_threshold otsu_init)"
      by (simp add: otsu_init_def)
  qed simp
  then show ?thesis using otsu_threshold_unfold [OF assms(1,2)] by simp
qed











text \<open>
  Claim C4.  Step 6 (threshold by \<open>_otsu_threshold\<close>, then map \<open>p\<close> to 255 if
  \<open>p > t\<close> else 0) returns a binary single-channel image unchanged, so applying it twice
  gives the same image as applying it once.
\<close>

theorem binarize_idempotent_on_binary:
  assumes "wf_image img" "mode img = ModeL" "bands img = [px]"
    and "\<forall>p \<in> set px. p = 0 \<or> p = 255"
  shows "binarize rnd img = img \<and> binarize rnd (binarize rnd img) = binarize rnd img"
proof -
  let ?t = "otsu_threshold rnd img"
  have "?t < 255"
  proof -
    from otsu_threshold_range [OF assms(1,3)] consider "?t = 128" | "splits px ?t" by blast
    then show ?thesis
    proof cases
      case 1
      then show ?thesis by simp
    next
      case 2
      then obtain p where "p \<in> set px" "int ?t < p" by (auto simp: splits_def)
      with assms(4) show ?thesis by auto
    qed
  qed
  then have "map (\<lambda>p. if p > int ?t then 255 else 0) px = px"
    using assms(4) by (intro map_idI) auto
  then have "binarize rnd img = img"
    using assms(3) by (simp add: binarize_def point_def Let_def)
  then show ?thesis by simp
qed

theorem binarize_idempotent_on_binary_witness:
  "wf_image two_tone \<and> mode two_tone = ModeL \<and> bands two_tone = [[0, 255, 255, 0]] \<and>
   list_all (\<lambda>p. p = 0 \<or> p = 255) [0, 255, 255, 0 :: int] \<and>
   binarize fl two_tone = two_tone"
proof -
  have 1: "wf_image two_tone" by (simp add: wf_image_def two_tone_def nbands_def)
  have 2: "mode two_tone = ModeL" by (simp add: two_tone_def)
  have 3: "bands two_tone = [[0, 255, 255, 0]]" by (simp add: two_tone_def)
  have 4: "\<forall>p \<in> set [0, 255, 255, 0 :: int]. p = 0 \<or> p = 255" by simp
  have 5: "list_all (\<lambda>p. p = 0 \<or> p = 255) [0, 255, 255, 0 :: int]" by simp
  from binarize_idempotent_on_binary [OF 1 2 3 4, of fl] 1 2 3 5 show ?thesis by blast
qed

text \<open>An image with exactly two pixel values: every splitting threshold makes the same split.\<close>

lemma otsu_two_values:
  assumes "wf_image img" "mode img = ModeL" "bands img = [px]" "rnd_ok rnd"
    and "a \<in> set px" "b \<in> set px" "a < b" "\<forall>p \<in> set px. p = a \<or> p = b"
  shows "int (otsu_threshold rnd img) = a \<and> int (otsu_threshold rnd img) < b"
proof -
  from otsu_threshold_best [OF assms(1,3,4)] obtain s
    where s: "otsu_threshold rnd img = best_threshold s" "best_upto rnd px 256 s" by blast
  have a0: "0 \<le> a" and b255: "b \<le> 255"
    using gray_image_facts(2) [OF assms(1,3)] assms(5,6) by auto
  have sp: "splits px u \<longleftrightarrow> a \<le> int u \<and> int u < b" for u
    using assms(5-8) by (auto simp: splits_def)
  have ex: "\<exists>u<256. splits px u"
    using a0 b255 assms(7) by (intro exI [of _ "nat a"]) (simp add: sp)
  note b = best_uptoD [OF s(2) ex]
  let ?t = "best_threshold s"
  from b(1) have t: "a \<le> int ?t" "int ?t < b" by (simp_all add: sp)
  have "\<not> nat a < ?t"
  proof
    assume lt: "nat a < ?t"
    have "splits px (nat a)" using a0 assms(7) by (simp add: sp)
    with b(5) lt have less: "computed_variance rnd px (nat a) < best_variance s" by blast
    have "filter (\<lambda>p. p \<le> int (nat a)) px = filter (\<lambda>p. p \<le> int ?t) px"
      using assms(8) t a0 by (intro filter_cong) auto
    moreover have "filter (\<lambda>p. int (nat a) < p) px = filter (\<lambda>p. int ?t < p) px"
      using assms(8) t a0 by (intro filter_cong) auto
    ultimately have "computed_variance rnd px (nat a) = computed_variance rnd px ?t"
      by (simp add: computed_variance_def)
    with less b(3) show False by simp
  qed
  with t a0 have "int ?t = a" by linarith
  with t s(1) show ?thesis by simp
qed












lemma analyze_molecule_reached:
  assumes "reaches_recognition rnd lib env"
  shows "analyze_molecule rnd lib env fs =
     (let temp_path = temp_name env;
          result = recognize_molecule_with_osra (subprocess_run env) temp_path;
          fs' = engine_fs env (insert temp_path fs);
          fs'' = (if temp_path \<in> fs' then fs' - {temp_path} else fs')
      in case result of
           Inl _ \<Rightarrow> (Propagated, fs'')
         | Inr (Some s) \<Rightarrow>
             (if s \<noteq> []
              then (Response \<lparr>status = 200, success = Some True, smiles = Some s, err = None\<rparr>, fs'')
              else (Response \<lparr>status = 200, success = Some False,
                              smiles = None, err = Some not_recognized\<rparr>, fs''))
         | Inr None \<Rightarrow>
             (Response \<lparr>status = 200, success = Some False,
                        smiles = None, err = Some not_recognized\<rparr>, fs''))"
  using assms
  by (auto simp: reaches_recognition_def analyze_molecule_def Let_def split: sum.splits option.splits)

text \<open>
  Claim C6.  Whenever the handler reaches the recognition call, the temporary file does
  not exist when the handler is left, whatever the engine did: whether recognition
  returned a SMILES string, returned \<open>None\<close>, or let an exception escape.
\<close>

theorem temp_file_removed:
  assumes "reaches_recognition rnd lib env"
  shows "temp_name env \<notin> snd (analyze_molecule rnd lib env fs)"
proof -
  from analyze_molecule_reached [OF assms, of fs] show ?thesis
    by (auto simp: Let_def split: sum.splits option.splits if_splits)
qed

lemma imsize_crop: "imsize (crop (l, u, r, lo) img) = (r - l, lo - u)"
  by (simp add: crop_def Let_def split: prod.splits)

lemma imsize_expand:
  "imsize (expand img border fill) = (fst (imsize img) + 2 * border, snd (imsize img) + 2 * border)"
  by (simp add: expand_def Let_def split: prod.splits)

lemma imsize_step8:
  "imsize (step8_crop_pad img) =
     (if 16 < fst (imsize img) \<and> 16 < snd (imsize img)
      then (fst (imsize img) + 24, snd (imsize img) + 24)
      else (fst (imsize img) + 30, snd (imsize img) + 30))"
  by (auto simp: step8_crop_pad_def Let_def imsize_crop imsize_expand split: prod.splits)

lemma resize_no_zero_division: "resize lib sz img \<noteq> Inl ZeroDivisionError"
  by (simp add: resize_def)

lemma step9_downscale_no_zero_division: "step9_downscale rnd lib img \<noteq> Inl ZeroDivisionError"
  by (auto simp: step9_downscale_def Let_def py_truediv_def resize_no_zero_division
      split: prod.splits sum.splits if_splits)

lemma step9_upscale_no_zero_division:
  "0 < min (fst (imsize img)) (snd (imsize img)) \<Longrightarrow>
     step9_upscale rnd lib img \<noteq> Inl ZeroDivisionError"
  by (auto simp: step9_upscale_def Let_def py_truediv_def resize_no_zero_division
      split: prod.splits sum.splits if_splits)

lemma step9_no_zero_division:
  "0 < min (fst (imsize img)) (snd (imsize img)) \<Longrightarrow>
     step9_resolution rnd lib img \<noteq> Inl ZeroDivisionError"
  using step9_upscale_no_zero_division [of img rnd lib]
  by (auto simp: step9_resolution_def step9_downscale_no_zero_division split: sum.splits)

text \<open>
  Claim C10.  For an image of positive width and height entering step 8, the crop (taken
  only when both dimensions exceed 16) leaves at least 11 pixels each way, the padding
  makes both dimensions at least 31, and neither division of step 9 raises
  \<open>ZeroDivisionError\<close>.
\<close>

theorem step9_never_divides_by_zero:
  assumes "0 < fst (imsize img)" "0 < snd (imsize img)"
  shows "(16 < fst (imsize img) \<and> 16 < snd (imsize img) \<longrightarrow>
            11 \<le> fst (imsize img) - 2 * 3 \<and> 11 \<le> snd (imsize img) - 2 * 3) \<and>
         31 \<le> min (fst (imsize (step8_crop_pad img))) (snd (imsize (step8_crop_pad img))) \<and>
         step9_upscale rnd lib (step8_crop_pad img) \<noteq> Inl ZeroDivisionError \<and>
         step9_resolution rnd lib (step8_crop_pad img) \<noteq> Inl ZeroDivisionError"
proof -
  have 1: "31 \<le> min (fst (imsize (step8_crop_pad img))) (snd (imsize (step8_crop_pad img)))"
    using assms by (simp add: imsize_step8)
  then have 2: "0 < min (fst (imsize (step8_crop_pad img))) (snd (imsize (step8_crop_pad img)))"
    by linarith
  from 1 step9_upscale_no_zero_division [OF 2] step9_no_zero_division [OF 2]
  show ?thesis by auto
qed

theorem step9_never_divides_by_zero_witness:
  "0 < fst (imsize small_gray) \<and> 0 < snd (imsize small_gray) \<and>
   31 \<le> min (fst (imsize (step8_crop_pad small_gray))) (snd (imsize (step8_crop_pad small_gray))) \<and>
   step9_resolution fl pillow (step8_crop_pad small_gray) \<noteq> Inl ZeroDivisionError"
proof -
  have 1: "0 < fst (imsize small_gray)" and 2: "0 < snd (imsize small_gray)"
    by (simp_all add: small_gray_def)
  from step9_never_divides_by_zero [OF 1 2, of fl pillow] 1 2 show ?thesis by blast
qed

lemma scaled_dim_97: "scaled_dim fl 97 (fl (400 / 97)) = 399"
  unfolding scaled_dim_def of_nat_numeral by code_simp

lemma scaled_dim_100: "scaled_dim fl 100 (fl 4) = 400"
  unfolding scaled_dim_def of_nat_numeral by code_simp

text \<open>
  Claim C2 fails on the code.  An image entering step 9 with both dimensions 97 is below
  the 400 bound; \<open>400 / 97\<close> rounds down as a double, \<open>97 * scale\<close> is
  \<open>399.99999999999994\<close> and \<open>int\<close> truncates it: the image leaves step 9 as 399 by 399,
  not 400 by 400.
\<close>

theorem step9_upscale_misses_400:
  "\<exists>out. step9_resolution fl lib square97 = Inr out \<and> imsize out = (399, 399)"
proof -
  have "step9_upscale fl lib square97 =
      Inr (square97\<lparr>imsize := (399, 399), bands := resample_bands lib (399, 399) square97\<rparr>)"
    by (simp add: step9_upscale_def square97_def Let_def py_truediv_def resize_def scaled_dim_97)
  then show ?thesis
    by (simp add: step9_resolution_def step9_downscale_def Let_def)
qed

lemma length_grid: "length (grid w h f) = w * h"
  by (simp add: grid_def length_concat comp_def sum_list_triv)

lemma set_grid: "set (grid w h f) = {f x y |x y. x < w \<and> y < h}"
  by (fastforce simp: grid_def)

lemma grid_Suc: "grid w (Suc h) f = grid w h f @ map (\<lambda>x. f x h) [0..<w]"
  by (simp add: grid_def)

lemma nth_grid: "x < w \<Longrightarrow> y < h \<Longrightarrow> grid w h f ! (y * w + x) = f x y"
proof (induction h)
  case 0
  then show ?case by simp
next
  case (Suc h)
  show ?case
  proof (cases "y < h")
    case True
    then have "Suc y * w \<le> h * w" by (intro mult_le_mono1) simp
    then have "y * w + x < w * h"
      using Suc.prems(1) by (simp add: mult.commute)
    with True Suc show ?thesis by (simp add: grid_Suc nth_append length_grid)
  next
    case False
    with Suc.prems have "y = h" by simp
    with Suc.prems(1) show ?thesis by (simp add: grid_Suc nth_append length_grid mult.commute)
  qed
qed

lemma mode_point [simp]: "mode (point f img) = mode img"
  and imsize_point [simp]: "imsize (point f img) = imsize img"
  and bands_point: "bands (point f img) = map (map f) (bands img)"
  by (simp_all add: point_def)

lemma wf_point:
  assumes "wf_image img" "\<And>p. 0 \<le> p \<Longrightarrow> p \<le> 255 \<Longrightarrow> 0 \<le> f p \<and> f p \<le> 255"
  shows "wf_image (point f img)"
  using assms by (auto simp: wf_image_def point_def)

lemma mode_convert [simp]: "mode (convert lib m img) = m"
  and imsize_convert [simp]: "imsize (convert lib m img) = imsize img"
  by (simp_all add: convert_def)

lemma convert_same: "mode img = m \<Longrightarrow> convert lib m img = img"
  by (simp add: convert_def)

lemma wf_convert: "pil_ok lib \<Longrightarrow> wf_image img \<Longrightarrow> m \<noteq> ModeP \<Longrightarrow> wf_image (convert lib m img)"
  by (simp add: pil_ok_def)

lemma wf_new_image:
  "length color = nbands m \<Longrightarrow> m \<noteq> ModeP \<Longrightarrow> \<forall>c \<in> set color. 0 \<le> c \<and> c \<le> 255 \<Longrightarrow>
     wf_image (new_image m sz color)"
  by (auto simp: wf_image_def new_image_def)

lemma flatten_onto_white_ok:
  assumes "pil_ok lib" "wf_image img" "mode img = ModeRGBA"
  shows "wf_image (flatten_onto_white lib img)" "mode (flatten_onto_white lib img) = ModeRGB"
    "imsize (flatten_onto_white lib img) = imsize img"
proof -
  let ?bg = "new_image ModeRGBA (imsize img) [255, 255, 255, 255]"
  have bg: "wf_image ?bg" by (rule wf_new_image) (simp_all add: nbands_def)
  have "mode ?bg = ModeRGBA" "imsize img = imsize ?bg" by (simp_all add: new_image_def)
  with assms bg have "wf_image (paste lib ?bg img (bands img ! 3))"
    unfolding pil_ok_def by blast
  then show "wf_image (flatten_onto_white lib img)"
    using assms(1) by (simp add: flatten_onto_white_def Let_def wf_convert)
  show "mode (flatten_onto_white lib img) = ModeRGB"
    by (simp add: flatten_onto_white_def Let_def)
  show "imsize (flatten_onto_white lib img) = imsize img"
    by (simp add: flatten_onto_white_def Let_def paste_def new_image_def)
qed

lemma step1_ok:
  assumes "pil_ok lib" "wf_image img"
  shows "wf_image (step1_flatten lib img)" "mode (step1_flatten lib img) = ModeRGB"
    "imsize (step1_flatten lib img) = imsize img"
proof -
  consider "mode img = ModeRGBA" | "mode img = ModeP" | "mode img = ModeL" | "mode img = ModeRGB"
    by (cases "mode img") auto
  then have "wf_image (step1_flatten lib img) \<and> mode (step1_flatten lib img) = ModeRGB \<and>
    imsize (step1_flatten lib img) = imsize img"
  proof cases
    case 1
    with flatten_onto_white_ok [OF assms 1] show ?thesis by (simp add: step1_flatten_def)
  next
    case 2
    have "wf_image (convert lib ModeRGBA img)" using assms by (simp add: wf_convert)
    from flatten_onto_white_ok [OF assms(1) this] 2 show ?thesis
      by (simp add: step1_flatten_def)
  next
    case 3
    with assms show ?thesis by (simp add: step1_flatten_def wf_convert)
  next
    case 4
    with assms show ?thesis by (simp add: step1_flatten_def)
  qed
  then show "wf_image (step1_flatten lib img)" "mode (step1_flatten lib img) = ModeRGB"
    "imsize (step1_flatten lib img) = imsize img" by simp_all
qed

lemma index_in_range: "x < w \<Longrightarrow> y < h \<Longrightarrow> y * w + x < w * (h::nat)"
proof -
  assume x: "x < w" and y: "y < h"
  from y have "Suc y * w \<le> h * w" by (intro mult_le_mono1) simp
  with x show ?thesis by (simp add: mult.commute)
qed

lemma gray_okD:
  assumes "gray_ok img"
  obtains px where "bands img = [px]" "length px = fst (imsize img) * snd (imsize img)"
    "\<forall>p \<in> set px. 0 \<le> p \<and> p \<le> 255"
proof -
  from assms have "length (bands img) = 1" by (simp add: gray_ok_def wf_image_def nbands_def)
  then obtain px where px: "bands img = [px]"
    by (cases "bands img") auto
  with assms that show ?thesis by (auto simp: gray_ok_def wf_image_def)
qed

lemma gray_okI:
  assumes "mode img = ModeL" "bands img = [px]" "length px = fst (imsize img) * snd (imsize img)"
    "\<forall>p \<in> set px. 0 \<le> p \<and> p \<le> 255"
  shows "gray_ok img"
  using assms by (simp add: gray_ok_def wf_image_def nbands_def)

lemma gray_ok_point:
  assumes "gray_ok img" "\<And>p. 0 \<le> p \<Longrightarrow> p \<le> 255 \<Longrightarrow> 0 \<le> f p \<and> f p \<le> 255"
  shows "gray_ok (point f img)"
  using assms wf_point [of img f] by (simp add: gray_ok_def)

lemma count_sum:
  "\<forall>p \<in> set px. 0 \<le> p \<Longrightarrow>
     (\<Sum>i\<leftarrow>[0..<n]. int (count_list px (int i))) = int (length (filter (\<lambda>p. p < int n) px))"
proof (induction n)
  case 0
  then show ?case using filter_less_zero [of px] by simp
next
  case (Suc n)
  then show ?case
    by (simp only: filter_less_Suc length_filter_le_step [of n px] upt_Suc_append le0 if_True
        map_append sum_list_append list.map sum_list.Nil sum_list.Cons)
qed

lemma sum_band_histogram:
  assumes "\<forall>p \<in> set px. 0 \<le> p \<and> p \<le> 255"
  shows "sum_list (band_histogram px) = int (length px)"
proof -
  have "sum_list (band_histogram px) = int (length (filter (\<lambda>p. p < int 256) px))"
    unfolding band_histogram_def using assms by (intro count_sum) blast
  also have "\<dots> = int (length px)" using assms by (subst filter_all) auto
  finally show ?thesis .
qed

lemma stat_mean_gray:
  assumes "gray_ok img" "bands img = [px]" "px \<noteq> []"
  shows "stat_mean rnd img = Inr (rnd (of_int (sum_list px) / of_int (int (length px))))"
proof -
  from assms(1,2) have r: "\<forall>p \<in> set px. 0 \<le> p \<and> p \<le> 255"
    by (auto simp: gray_ok_def wf_image_def)
  have h: "histogram img = band_histogram px" using assms(2) by (simp add: histogram_def)
  have l: "length (band_histogram px) = 256" by (simp add: band_histogram_def)
  have c: "sum_list (take 256 (band_histogram px)) = int (length px)"
    using sum_band_histogram [OF r] l by simp
  show ?thesis
    using assms(3) by (simp add: stat_mean_def Let_def h c otsu_total_sum [OF r])
qed

lemma step3_ok:
  assumes "gray_ok img" "0 < fst (imsize img) * snd (imsize img)"
  shows "\<exists>out. step3_invert_dark rnd img = Inr out \<and> gray_ok out \<and> imsize out = imsize img"
proof -
  from assms(1) obtain px where px: "bands img = [px]"
    "length px = fst (imsize img) * snd (imsize img)" by (rule gray_okD)
  with assms(2) have "px \<noteq> []" by auto
  from stat_mean_gray [OF assms(1) px(1) this, of rnd]
  have "step3_invert_dark rnd img = Inr img \<or> step3_invert_dark rnd img = Inr (invert img)"
    by (simp add: step3_invert_dark_def)
  moreover have "gray_ok (invert img)"
    unfolding invert_def using assms(1) by (rule gray_ok_point) simp
  moreover have "imsize (invert img) = imsize img" by (simp add: invert_def)
  ultimately show ?thesis using assms(1) by auto
qed

lemma step4_ok: "gray_ok img \<Longrightarrow> gray_ok (step4_suppress_light img)"
  unfolding step4_suppress_light_def by (rule gray_ok_point) simp_all

lemma imsize_step4 [simp]: "imsize (step4_suppress_light img) = imsize img"
  by (simp add: step4_suppress_light_def)

lemma map2_replicate: "length xs = n \<Longrightarrow> map2 f (replicate n a) xs = map (f a) xs"
  by (induction xs arbitrary: n) auto

lemma py_int_range: "0 \<le> t \<Longrightarrow> t < 255 \<Longrightarrow> 0 \<le> py_int t \<and> py_int t \<le> 255"
proof -
  assume t: "0 \<le> t" "t < 255"
  then have "0 \<le> \<lfloor>t\<rfloor>" by (simp add: zero_le_floor)
  moreover have "\<lfloor>t\<rfloor> < 255" using t(2) by (simp add: floor_less_iff)
  ultimately show ?thesis using t(1) by (simp add: py_int_def)
qed

lemma blend_pixel_range: "0 \<le> blend_pixel (3 / 2) a b \<and> blend_pixel (3 / 2) a b \<le> 255"
proof -
  define t :: rat where "t = of_int a + 3 / 2 * of_int (b - a)"
  have "blend_pixel (3 / 2) a b = (if t \<le> 0 then 0 else if 255 \<le> t then 255 else py_int t)"
    by (simp add: blend_pixel_def Let_def t_def)
  with py_int_range [of t] show ?thesis by auto
qed

lemma contrast_enhance_gray:
  assumes "gray_ok img" "bands img = [px]" "px \<noteq> []"
  shows "\<exists>out. contrast_enhance rnd lib img factor = Inr out \<and> mode out = ModeL \<and>
           imsize out = imsize img \<and>
           bands out = [map (blend_pixel factor
              (py_int (rnd (rnd (of_int (sum_list px) / of_int (int (length px))) + 1 / 2)))) px]"
proof -
  from assms(1) have m: "mode img = ModeL" by (simp add: gray_ok_def)
  from assms(1,2) have l: "length px = fst (imsize img) * snd (imsize img)"
    by (auto simp: gray_ok_def wf_image_def)
  have c: "convert lib ModeL img = img" using m by (rule convert_same)
  show ?thesis
    using stat_mean_gray [OF assms, of rnd]
    by (simp add: contrast_enhance_def c m convert_def Let_def blend_def new_image_def assms(2)
        map2_replicate [OF l])
qed

lemma step5_ok:
  assumes "gray_ok img" "0 < fst (imsize img) * snd (imsize img)"
  shows "\<exists>out. step5_contrast rnd lib img = Inr out \<and> gray_ok out \<and> imsize out = imsize img"
proof -
  from assms(1) obtain px where px: "bands img = [px]"
    "length px = fst (imsize img) * snd (imsize img)" by (rule gray_okD)
  with assms(2) have "px \<noteq> []" by auto
  from contrast_enhance_gray [OF assms(1) px(1) this, of rnd lib "3 / 2"]
  obtain out where out: "step5_contrast rnd lib img = Inr out" "mode out = ModeL"
    "imsize out = imsize img"
    "bands out = [map (blend_pixel (3 / 2)
        (py_int (rnd (rnd (of_int (sum_list px) / of_int (int (length px))) + 1 / 2)))) px]"
    unfolding step5_contrast_def by blast
  have "gray_ok out"
    by (rule gray_okI [OF out(2) out(4)]) (simp_all add: out(3) px(2) blend_pixel_range)
  with out show ?thesis by blast
qed

lemma binarize_ok:
  assumes "gray_ok img"
  shows "gray_ok (binarize rnd img)" "binary_image (binarize rnd img)"
    "imsize (binarize rnd img) = imsize img"
proof -
  show "gray_ok (binarize rnd img)"
    unfolding binarize_def Let_def using assms by (rule gray_ok_point) simp
  show "binary_image (binarize rnd img)"
    by (auto simp: binarize_def Let_def binary_image_def point_def)
  show "imsize (binarize rnd img) = imsize img" by (simp add: binarize_def Let_def)
qed

lemma clamp_index_less: "0 < n \<Longrightarrow> clamp_index i n < n"
  by (auto simp: clamp_index_def)

lemma window3_subset:
  assumes "x < w" "y < h" "length b = w * h"
  shows "set (window3 w h b x y) \<subseteq> set b"
proof -
  have w: "0 < w" and h: "0 < h" using assms by auto
  have "b ! (clamp_index i h * w + clamp_index j w) \<in> set b" for i j
    using index_in_range [OF clamp_index_less [OF w, of j] clamp_index_less [OF h, of i]] assms(3)
    by simp
  then show ?thesis by (auto simp: window3_def)
qed

lemma median_in_window: "sort (window3 w h b x y) ! 4 \<in> set (window3 w h b x y)"
proof -
  have "length (sort (window3 w h b x y)) = 9" by (simp add: window3_def)
  then have "sort (window3 w h b x y) ! 4 \<in> set (sort (window3 w h b x y))"
    by (intro nth_mem) simp
  then show ?thesis by simp
qed

lemma median_filter3_ok:
  assumes "gray_ok img"
  shows "gray_ok (median_filter3 img)" "imsize (median_filter3 img) = imsize img"
    "binary_image img \<Longrightarrow> binary_image (median_filter3 img)"
proof -
  from assms obtain px where px: "bands img = [px]"
    "length px = fst (imsize img) * snd (imsize img)" "\<forall>p \<in> set px. 0 \<le> p \<and> p \<le> 255"
    by (rule gray_okD)
  obtain w h where wh: "imsize img = (w, h)" by (cases "imsize img")
  let ?out = "grid w h (\<lambda>x y. sort (window3 w h px x y) ! 4)"
  have b: "bands (median_filter3 img) = [?out]" by (simp add: median_filter3_def wh px(1))
  have mem: "p \<in> set px" if "p \<in> set ?out" for p
  proof -
    from that obtain x y where "x < w" "y < h" "p = sort (window3 w h px x y) ! 4"
      by (auto simp: set_grid)
    with median_in_window [of w h px x y] window3_subset [of x w y h px] px(2) wh
    show ?thesis by auto
  qed
  show s: "imsize (median_filter3 img) = imsize img" by (simp add: median_filter3_def wh)
  have m: "mode (median_filter3 img) = ModeL" using assms by (simp add: median_filter3_def wh gray_ok_def)
  show "gray_ok (median_filter3 img)"
    using mem px(3) by (intro gray_okI [OF m b]) (auto simp: s wh length_grid)
  show "binary_image (median_filter3 img)" if "binary_image img"
    using that mem by (auto simp: binary_image_def b px(1))
qed

lemma crop_ok:
  assumes "gray_ok img" "imsize img = (w, h)" "l \<le> r" "r \<le> w" "u \<le> lo" "lo \<le> h"
  shows "gray_ok (crop (l, u, r, lo) img)"
    "binary_image img \<Longrightarrow> binary_image (crop (l, u, r, lo) img)"
proof -
  from assms(1) obtain px where px: "bands img = [px]"
    "length px = fst (imsize img) * snd (imsize img)" "\<forall>p \<in> set px. 0 \<le> p \<and> p \<le> 255"
    by (rule gray_okD)
  let ?out = "grid (r - l) (lo - u) (\<lambda>x y. px ! ((y + u) * w + (x + l)))"
  have b: "bands (crop (l, u, r, lo) img) = [?out]"
    by (simp add: crop_def assms(2) px(1) Let_def)
  have mem: "p \<in> set px" if "p \<in> set ?out" for p
  proof -
    from that obtain x y where xy: "x < r - l" "y < lo - u" "p = px ! ((y + u) * w + (x + l))"
      by (auto simp: set_grid)
    then have "x + l < w" "y + u < h" using assms(3-6) by simp_all
    from index_in_range [OF this] px(2) assms(2) xy(3) show ?thesis by simp
  qed
  have m: "mode (crop (l, u, r, lo) img) = ModeL"
    using assms(1,2) by (simp add: crop_def gray_ok_def Let_def)
  show "gray_ok (crop (l, u, r, lo) img)"
    using mem px(3) by (intro gray_okI [OF m b]) (auto simp: imsize_crop length_grid)
  show "binary_image (crop (l, u, r, lo) img)" if "binary_image img"
    using that mem by (auto simp: binary_image_def b px(1))
qed

lemma expand_ok:
  assumes "gray_ok img" "0 \<le> fill" "fill \<le> 255"
  shows "gray_ok (expand img border fill)"
    "binary_image img \<Longrightarrow> fill = 255 \<Longrightarrow> binary_image (expand img border fill)"
proof -
  from assms(1) obtain px where px: "bands img = [px]"
    "length px = fst (imsize img) * snd (imsize img)" "\<forall>p \<in> set px. 0 \<le> p \<and> p \<le> 255"
    by (rule gray_okD)
  obtain w h where wh: "imsize img = (w, h)" by (cases "imsize img")
  let ?f = "\<lambda>x y. if border \<le> x \<and> x < border + w \<and> border \<le> y \<and> y < border + h
                   then px ! ((y - border) * w + (x - border)) else fill"
  let ?out = "grid (w + 2 * border) (h + 2 * border) ?f"
  have b: "bands (expand img border fill) = [?out]" by (simp add: expand_def wh px(1) Let_def)
  have mem: "p \<in> set px \<or> p = fill" if "p \<in> set ?out" for p
  proof -
    from that obtain x y where xy: "p = ?f x y" by (auto simp: set_grid)
    show ?thesis
    proof (cases "border \<le> x \<and> x < border + w \<and> border \<le> y \<and> y < border + h")
      case True
      then have "x - border < w" "y - border < h" by auto
      from index_in_range [OF this] px(2) wh xy True show ?thesis by simp
    next
      case False
      with xy show ?thesis by auto
    qed
  qed
  have m: "mode (expand img border fill) = ModeL"
    using assms(1) by (simp add: expand_def wh gray_ok_def Let_def)
  show "gray_ok (expand img border fill)"
    using mem px(3) assms(2,3)
    by (intro gray_okI [OF m b]) (auto simp: imsize_expand wh length_grid)
  show "binary_image (expand img border fill)" if bi: "binary_image img" and f: "fill = 255"
  proof -
    have "\<forall>p \<in> set ?out. p = 0 \<or> p = 255"
      using mem bi f by (auto simp: binary_image_def px(1))
    then show ?thesis unfolding binary_image_def b by simp
  qed
qed

lemma step8_ok:
  assumes "gray_ok img"
  shows "gray_ok (step8_crop_pad img)"
    "binary_image img \<Longrightarrow> binary_image (step8_crop_pad img)"
proof -
  obtain w h where wh: "imsize img = (w, h)" by (cases "imsize img")
  show "gray_ok (step8_crop_pad img)"
    using assms crop_ok(1) [OF assms wh, of 3 "w - 3" 3 "h - 3"]
    by (auto simp: step8_crop_pad_def wh Let_def intro!: expand_ok(1))
  show "binary_image (step8_crop_pad img)" if "binary_image img"
    using assms that crop_ok [OF assms wh, of 3 "w - 3" 3 "h - 3"]
    by (auto simp: step8_crop_pad_def wh Let_def intro!: expand_ok(2))
qed

text \<open>Steps 1 to 8 on a well-formed image with at least one pixel.\<close>

lemma steps_1_to_8_ok:
  assumes "pil_ok lib" "wf_image img" "0 < fst (imsize img)" "0 < snd (imsize img)"
  shows "\<exists>out. steps_1_to_8 rnd lib img = Inr out \<and> gray_ok out \<and> binary_image out \<and>
           imsize out = (if 16 < fst (imsize img) \<and> 16 < snd (imsize img)
                         then (fst (imsize img) + 24, snd (imsize img) + 24)
                         else (fst (imsize img) + 30, snd (imsize img) + 30))"
proof -
  let ?i2 = "step2_grayscale lib (step1_flatten lib img)"
  note s1 = step1_ok [OF assms(1,2)]
  have g2: "gray_ok ?i2" and z2: "imsize ?i2 = imsize img"
    using s1 assms(1) by (simp_all add: step2_grayscale_def gray_ok_def wf_convert)
  have pos: "0 < fst (imsize img) * snd (imsize img)" using assms(3,4) by simp
  from step3_ok [OF g2, of rnd] pos z2 obtain i3
    where i3: "step3_invert_dark rnd ?i2 = Inr i3" "gray_ok i3" "imsize i3 = imsize img" by auto
  let ?i4 = "step4_suppress_light i3"
  have g4: "gray_ok ?i4" and z4: "imsize ?i4 = imsize img" using i3 by (simp_all add: step4_ok)
  from step5_ok [OF g4, of rnd lib] pos z4 obtain i5
    where i5: "step5_contrast rnd lib ?i4 = Inr i5" "gray_ok i5" "imsize i5 = imsize img" by auto
  let ?i7 = "step7_median (binarize rnd i5)"
  note b6 = binarize_ok [OF i5(2), of rnd]
  have g7: "gray_ok ?i7" and z7: "imsize ?i7 = imsize img" and b7: "binary_image ?i7"
    using median_filter3_ok [OF b6(1)] b6(2,3) i5(3) by (simp_all add: step7_median_def)
  have "steps_1_to_8 rnd lib img = Inr (step8_crop_pad ?i7)"
    by (simp add: steps_1_to_8_def Let_def i3(1) i5(1))
  with step8_ok [OF g7] b7 imsize_step8 [of ?i7] z7 show ?thesis by simp
qed

lemma luma_range:
  assumes "0 \<le> r" "r \<le> 255" "0 \<le> g" "g \<le> 255" "0 \<le> b" "b \<le> 255"
  shows "0 \<le> luma r g b \<and> luma r g b \<le> 255"
proof -
  have "0 \<le> r * 19595 + g * 38470 + b * 7471 + 32768" using assms by simp
  moreover have "r * 19595 + g * 38470 + b * 7471 + 32768 < 256 * 65536" using assms by simp
  ultimately have "0 \<le> (r * 19595 + g * 38470 + b * 7471 + 32768) div 65536"
    "(r * 19595 + g * 38470 + b * 7471 + 32768) div 65536 \<le> 255" by simp_all
  then show ?thesis by (simp add: luma_def)
qed

lemma blend8_range:
  assumes "0 \<le> m" "m \<le> 255" "0 \<le> d" "d \<le> 255" "0 \<le> s" "s \<le> 255"
  shows "0 \<le> blend8 m d s \<and> blend8 m d s \<le> 255"
proof -
  define tmp where "tmp = d * (255 - m) + s * m + 128"
  have 1: "d * (255 - m) \<le> 255 * (255 - m)" using assms by (intro mult_right_mono) simp_all
  have 2: "s * m \<le> 255 * m" using assms by (intro mult_right_mono) simp_all
  have 3: "0 \<le> d * (255 - m)" "0 \<le> s * m" using assms by simp_all
  from 1 2 3 have t: "128 \<le> tmp" "tmp \<le> 65153" by (simp_all add: tmp_def)
  then have "0 \<le> tmp div 256" "tmp div 256 \<le> 254" by simp_all
  with t have "0 \<le> tmp div 256 + tmp" "tmp div 256 + tmp \<le> 65407" by simp_all
  then have "0 \<le> (tmp div 256 + tmp) div 256" "(tmp div 256 + tmp) div 256 \<le> 255" by simp_all
  then show ?thesis by (simp add: blend8_def Let_def tmp_def)
qed

lemma wf_image_band:
  assumes "wf_image img" "k < nbands (mode img)"
  shows "length (bands img ! k) = fst (imsize img) * snd (imsize img)"
    and "\<forall>p \<in> set (bands img ! k). 0 \<le> p \<and> p \<le> 255"
proof -
  from assms have "bands img ! k \<in> set (bands img)" by (simp add: wf_image_def)
  with assms(1) show "length (bands img ! k) = fst (imsize img) * snd (imsize img)"
    and "\<forall>p \<in> set (bands img ! k). 0 \<le> p \<and> p \<le> 255"
    by (simp_all add: wf_image_def)
qed

lemma palette_lookup_range:
  assumes "wf_image img" "mode img = ModeP" "i \<in> set (bands img ! 0)" "c < 4"
  shows "0 \<le> palette img ! (4 * nat i + c) \<and> palette img ! (4 * nat i + c) \<le> 255"
proof -
  from wf_image_band(2) [OF assms(1), of 0] assms(2,3) have "0 \<le> i" "i \<le> 255"
    by (simp_all add: nbands_def)
  then have "4 * nat i + c < 1024" using assms(4) by linarith
  then have "palette img ! (4 * nat i + c) \<in> set (palette img)"
    using assms(1,2) by (simp add: wf_image_def)
  with assms(1,2) show ?thesis by (simp add: wf_image_def)
qed

lemma to_rgba_ok:
  assumes "wf_image img"
  shows "bands_ok (fst (imsize img) * snd (imsize img)) 4 (to_rgba img)"
proof (cases "mode img")
  case ModeL
  with wf_image_band [OF assms, of 0] show ?thesis
    by (simp add: bands_ok_def to_rgba_def Let_def nbands_def)
next
  case ModeRGB
  with wf_image_band [OF assms, of 0] wf_image_band [OF assms, of 1] wf_image_band [OF assms, of 2]
  show ?thesis by (simp add: bands_ok_def to_rgba_def Let_def nbands_def)
next
  case ModeRGBA
  with wf_image_band [OF assms, of 0] wf_image_band [OF assms, of 1] wf_image_band [OF assms, of 2]
    wf_image_band [OF assms, of 3]
  show ?thesis by (simp add: bands_ok_def to_rgba_def Let_def nbands_def)
next
  case ModeP
  have "length (bands img ! 0) = fst (imsize img) * snd (imsize img)"
    using wf_image_band(1) [OF assms, of 0] ModeP by (simp add: nbands_def)
  with palette_lookup_range [OF assms ModeP, where c = 0, simplified]
    palette_lookup_range [OF assms ModeP, where c = 1, simplified]
    palette_lookup_range [OF assms ModeP, where c = 2, simplified]
    palette_lookup_range [OF assms ModeP, where c = 3, simplified] ModeP
  show ?thesis
    by (auto simp: bands_ok_def to_rgba_def Let_def)
qed

lemma pillow_convert_ok:
  assumes "wf_image img" "m \<noteq> ModeP"
  shows "bands_ok (fst (imsize img) * snd (imsize img)) (nbands m) (pillow_convert m img)"
proof -
  let ?n = "fst (imsize img) * snd (imsize img)"
  from to_rgba_ok [OF assms(1)] have len: "length (to_rgba img) = 4"
    and ok: "\<And>b. b \<in> set (to_rgba img) \<Longrightarrow> length b = ?n \<and> (\<forall>p \<in> set b. 0 \<le> p \<and> p \<le> 255)"
    by (simp_all add: bands_ok_def)
  have nth: "length (to_rgba img ! k) = ?n \<and> (\<forall>p \<in> set (to_rgba img ! k). 0 \<le> p \<and> p \<le> 255)"
    if "k < 4" for k
    using that len by (intro ok nth_mem) simp
  show ?thesis
  proof (cases m)
    case ModeL
    have "0 \<le> luma r g b \<and> luma r g b \<le> 255"
      if "(r, g, b) \<in> set (zip (to_rgba img ! 0) (zip (to_rgba img ! 1) (to_rgba img ! 2)))"
      for r g b
    proof -
      from that have "r \<in> set (to_rgba img ! 0)" "g \<in> set (to_rgba img ! 1)"
        "b \<in> set (to_rgba img ! 2)"
        by (auto dest: set_zip_leftD set_zip_rightD)
      with nth [of 0] nth [of 1] nth [of 2] show ?thesis by (intro luma_range) auto
    qed
    with nth [of 0] nth [of 1] nth [of 2] ModeL show ?thesis
      by (auto simp: bands_ok_def pillow_convert_def Let_def nbands_def)
  next
    case ModeRGB
    have "b \<in> set (to_rgba img)" if "b \<in> set (take 3 (to_rgba img))" for b
      using that by (rule in_set_takeD)
    with ok len ModeRGB show ?thesis
      by (auto simp: bands_ok_def pillow_convert_def Let_def nbands_def)
  next
    case ModeRGBA
    with ok len show ?thesis
      by (auto simp: bands_ok_def pillow_convert_def Let_def nbands_def)
  next
    case ModeP
    with assms(2) show ?thesis by simp
  qed
qed

lemma pillow_paste_ok:
  assumes "wf_image background" "wf_image img" "mode background = ModeRGBA" "mode img = ModeRGBA"
    "imsize img = imsize background"
  shows "bands_ok (fst (imsize background) * snd (imsize background)) 4
           (pillow_paste background img (bands img ! 3))"
proof -
  let ?n = "fst (imsize background) * snd (imsize background)"
  let ?msk = "bands img ! 3"
  have msk: "length ?msk = ?n" "\<forall>p \<in> set ?msk. 0 \<le> p \<and> p \<le> 255"
    using wf_image_band [OF assms(2), of 3] assms(4,5) by (simp_all add: nbands_def)
  have lb: "length (bands background) = 4" and li: "length (bands img) = 4"
    using assms(1-4) by (simp_all add: wf_image_def nbands_def)
  have one: "length (map (\<lambda>(m, d, s). blend8 m d s) (zip ?msk (zip dst src))) = ?n \<and>
      (\<forall>p \<in> set (map (\<lambda>(m, d, s). blend8 m d s) (zip ?msk (zip dst src))). 0 \<le> p \<and> p \<le> 255)"
    if "dst \<in> set (bands background)" "src \<in> set (bands img)" for dst src
  proof -
    from that assms(1,2,5) have d: "length dst = ?n" "\<forall>p \<in> set dst. 0 \<le> p \<and> p \<le> 255"
      and s: "length src = ?n" "\<forall>p \<in> set src. 0 \<le> p \<and> p \<le> 255"
      by (simp_all add: wf_image_def)
    have "0 \<le> blend8 m x y \<and> blend8 m x y \<le> 255"
      if "(m, x, y) \<in> set (zip ?msk (zip dst src))" for m x y
    proof -
      from that have "m \<in> set ?msk" "x \<in> set dst" "y \<in> set src"
        by (auto dest: set_zip_leftD set_zip_rightD)
      with msk(2) d(2) s(2) show ?thesis by (intro blend8_range) auto
    qed
    then show ?thesis using msk(1) d(1) s(1) by auto
  qed
  have "length b = ?n \<and> (\<forall>p \<in> set b. 0 \<le> p \<and> p \<le> 255)"
    if "b \<in> set (pillow_paste background img ?msk)" for b
  proof -
    from that obtain dst src where ds: "(dst, src) \<in> set (zip (bands background) (bands img))"
      and b: "b = map (\<lambda>(m, d, s). blend8 m d s) (zip ?msk (zip dst src))"
      unfolding pillow_paste_def by auto
    from ds have "dst \<in> set (bands background)" "src \<in> set (bands img)"
      by (auto dest: set_zip_leftD set_zip_rightD)
    from one [OF this] b show ?thesis by simp
  qed
  moreover have "length (pillow_paste background img ?msk) = 4"
    by (simp add: pillow_paste_def lb li)
  ultimately show ?thesis unfolding bands_ok_def by blast
qed

lemma pil_ok_pillow: "pil_ok pillow"
proof -
  have "wf_image (convert pillow m img)" if "wf_image img" "m \<noteq> ModeP" for img m
    using that pillow_convert_ok [OF that]
    by (auto simp: convert_def wf_image_def bands_ok_def pillow_def)
  moreover have "wf_image (paste pillow background img (bands img ! 3))"
    if "wf_image background" "wf_image img" "mode background = ModeRGBA" "mode img = ModeRGBA"
      "imsize img = imsize background" for background img
    using that pillow_paste_ok [OF that]
    by (auto simp: paste_def wf_image_def bands_ok_def pillow_def nbands_def)
  ultimately show ?thesis unfolding pil_ok_def by blast
qed

lemma mode_resize: "resize lib sz img = Inr out \<Longrightarrow> mode out = mode img"
  by (auto simp: resize_def split: if_splits)

lemma mode_step9: "step9_resolution rnd lib img = Inr out \<Longrightarrow> mode out = mode img"
  by (auto simp: step9_resolution_def step9_upscale_def step9_downscale_def Let_def
      split: sum.splits prod.splits if_splits dest!: mode_resize)

lemma step9_identity:
  assumes "400 \<le> min (fst (imsize img)) (snd (imsize img))"
    "max (fst (imsize img)) (snd (imsize img)) \<le> 1500"
  shows "step9_resolution rnd lib img = Inr img"
  using assms
  by (auto simp: step9_resolution_def step9_upscale_def step9_downscale_def Let_def
      split: prod.splits)

lemma wf_replicate_rgb:
  "wf_image \<lparr>mode = ModeRGB, imsize = (w, h), bands = replicate 3 (replicate (w * h) 255),
             palette = []\<rparr>"
  by (simp add: wf_image_def nbands_def)

lemma imsize_examples:
  "imsize tall_image = (1, 50000)" "imsize white_400_300 = (400, 300)"
  "imsize white_400_400 = (400, 400)"
  by (simp_all only: tall_image_def white_400_300_def white_400_400_def image.select_convs)

lemma mode_examples:
  "mode tall_image = ModeL" "mode white_400_300 = ModeRGB" "mode white_400_400 = ModeL"
  by (simp_all only: tall_image_def white_400_300_def white_400_400_def image.select_convs)

lemma wf_replicate_gray:
  "wf_image \<lparr>mode = ModeL, imsize = (w, h), bands = [replicate (w * h) 255], palette = []\<rparr>"
  by (simp add: wf_image_def nbands_def)

lemma scaled_dims_31: "scaled_dim fl 32 (fl (400 / 31)) = 412" "scaled_dim fl 31 (fl (400 / 31)) = 400"
  "scaled_dim fl 50030 (fl (400 / 31)) = 645548"
  unfolding scaled_dim_def of_nat_numeral by code_simp+

lemma scaled_dims_tall: "scaled_dim fl 400 (fl (375 / 161387)) = 0"
  "scaled_dim fl 645548 (fl (375 / 161387)) = 1499"
  unfolding scaled_dim_def of_nat_numeral by code_simp+

lemma scaled_dims_324: "scaled_dim fl 424 (fl (100 / 81)) = 523"
  "scaled_dim fl 324 (fl (100 / 81)) = 400"
  unfolding scaled_dim_def of_nat_numeral by code_simp+

lemma wf_small_gray: "wf_image small_gray"
  by (simp add: wf_image_def small_gray_def nbands_def)

lemma preprocess_small_gray: "\<exists>out. preprocess_image fl pillow small_gray = Inr out"
proof -
  from steps_1_to_8_ok [OF pil_ok_pillow wf_small_gray, of fl]
  obtain mid where mid: "steps_1_to_8 fl pillow small_gray = Inr mid" "imsize mid = (32, 31)"
    by (auto simp: small_gray_def)
  have "\<exists>out. step9_resolution fl pillow mid = Inr out"
    by (simp add: step9_resolution_def step9_upscale_def step9_downscale_def mid(2) Let_def
        py_truediv_def resize_def scaled_dims_31)
  with mid(1) show ?thesis by (simp add: preprocess_image_def)
qed

lemma reaches_env_ok: "reaches_recognition fl pillow (env_ok run)"
  using preprocess_small_gray by (auto simp: reaches_recognition_def env_ok_def)

lemma preprocess_tall_image: "preprocess_image fl pillow tall_image = Inl ValueError"
proof -
  have "wf_image tall_image" unfolding tall_image_def by (rule wf_replicate_gray)
  from steps_1_to_8_ok [OF pil_ok_pillow this, of fl]
  obtain mid where mid: "steps_1_to_8 fl pillow tall_image = Inr mid" "imsize mid = (31, 50030)"
    by (auto simp: imsize_examples)
  have "step9_upscale fl pillow mid =
      Inr (mid\<lparr>imsize := (400, 645548), bands := resample_bands pillow (400, 645548) mid\<rparr>)"
    by (simp add: step9_upscale_def mid(2) Let_def py_truediv_def resize_def scaled_dims_31)
  then have "step9_resolution fl pillow mid = Inl ValueError"
    by (simp add: step9_resolution_def step9_downscale_def Let_def py_truediv_def resize_def
        scaled_dims_tall)
  with mid(1) show ?thesis by (simp add: preprocess_image_def)
qed

theorem temp_file_removed_witness:
  "reaches_recognition fl pillow (env_ok (Completed 0 ''CCO ethanol'' [])) \<and>
   temp_name (env_ok (Completed 0 ''CCO ethanol'' []))
     \<notin> snd (analyze_molecule fl pillow (env_ok (Completed 0 ''CCO ethanol'' [])) {}) \<and>
   temp_name (env_ok TimeoutExpired) \<notin> snd (analyze_molecule fl pillow (env_ok TimeoutExpired) {}) \<and>
   temp_name (env_ok Interrupt) \<notin> snd (analyze_molecule fl pillow (env_ok Interrupt) {})"
  using reaches_env_ok temp_file_removed [OF reaches_env_ok] by blast

text \<open>
  Claim C7, as stated, fails: a decodable image one pixel wide and 50000 high is padded
  to 31 by 50030, upscaled to 400 by 645548 and then downscaled with a target width of
  \<open>int(400 * 1500 / 645548) = 0\<close>; the resize raises \<open>ValueError\<close>, and the handler
  answers 500 although the engine is merely missing.
\<close>

theorem engine_failure_counterexample:
  "engine_failed (subprocess_run env_tall (temp_name env_tall)) \<and>
   fst (analyze_molecule fl pillow env_tall {}) =
     Response \<lparr>status = 500, success = None, smiles = None,
               err = Some ''height and width must be > 0''\<rparr>"
proof -
  have "has_image env_tall" "opened env_tall = Inr tall_image"
    "subprocess_run env_tall (temp_name env_tall) = FileNotFoundError"
    by (simp_all only: env_tall_def request_env.select_convs)
  then show ?thesis
    by (simp add: engine_failed_def analyze_molecule_def preprocess_tall_image error_text_def)
qed

text \<open>
  Claim C7, amended.  For every request in which the handler reaches the recognition
  call: if the engine times out, is missing, exits with a non-zero status or prints
  nothing, then \<open>recognize_molecule_with_osra\<close> returns \<open>None\<close> without raising and the
  handler answers 200 with \<open>success: false\<close> and an error string.
\<close>

theorem engine_failure_gives_200:
  assumes "reaches_recognition rnd lib env"
    and "engine_failed (subprocess_run env (temp_name env))"
  shows "recognize_molecule_with_osra (subprocess_run env) (temp_name env) = Inr None \<and>
         fst (analyze_molecule rnd lib env fs) =
           Response \<lparr>status = 200, success = Some False, smiles = None,
                     err = Some not_recognized\<rparr>"
proof -
  have r: "recognize_molecule_with_osra (subprocess_run env) (temp_name env) = Inr None"
    using assms(2)
    by (auto simp: engine_failed_def recognize_molecule_with_osra_def py_strip_def
        split: proc_outcome.splits)
  with analyze_molecule_reached [OF assms(1), of fs] show ?thesis by (simp add: Let_def)
qed

theorem engine_failure_gives_200_witness:
  "reaches_recognition fl pillow (env_ok (Completed 1 [] ''no structure'')) \<and>
   engine_failed (subprocess_run (env_ok (Completed 1 [] ''no structure''))
                    (temp_name (env_ok (Completed 1 [] ''no structure'')))) \<and>
   fst (analyze_molecule fl pillow (env_ok (Completed 1 [] ''no structure'')) {}) =
     Response \<lparr>status = 200, success = Some False, smiles = None, err = Some not_recognized\<rparr>"
proof -
  have e: "engine_failed (subprocess_run (env_ok (Completed 1 [] ''no structure''))
                    (temp_name (env_ok (Completed 1 [] ''no structure''))))"
    by (simp add: engine_failed_def env_ok_def)
  from engine_failure_gives_200 [OF reaches_env_ok e] reaches_env_ok e show ?thesis by blast
qed

text \<open>
  Claim C9.  The two preprocessing variants differ: on the white 400 by 300 RGB image
  of the repository's test, the variant of \<open>src/server.py\<close> returns the RGB image
  unchanged, and the nine-step pipeline returns a single-channel image.
\<close>

theorem preprocessing_variants_differ:
  "mode white_400_300 = ModeRGB \<and>
   preprocess_image_minimal pillow white_400_300 = white_400_300 \<and>
   (\<exists>out. preprocess_image fl pillow white_400_300 = Inr out \<and> mode out = ModeL \<and>
          out \<noteq> preprocess_image_minimal pillow white_400_300)"
proof -
  note m = mode_examples(2)
  then have same: "preprocess_image_minimal pillow white_400_300 = white_400_300"
    by (simp add: preprocess_image_minimal_def)
  have "wf_image white_400_300" unfolding white_400_300_def by (rule wf_replicate_rgb)
  from steps_1_to_8_ok [OF pil_ok_pillow this, of fl]
  obtain mid where mid: "steps_1_to_8 fl pillow white_400_300 = Inr mid" "gray_ok mid"
    "imsize mid = (424, 324)"
    by (auto simp: imsize_examples)
  have "\<exists>out. step9_resolution fl pillow mid = Inr out"
    by (simp add: step9_resolution_def step9_upscale_def step9_downscale_def mid(3) Let_def
        py_truediv_def resize_def scaled_dims_324)
  then obtain out where out: "step9_resolution fl pillow mid = Inr out" by blast
  from mode_step9 [OF out] mid(2) have "mode out = ModeL" by (simp add: gray_ok_def)
  moreover from out mid(1) have "preprocess_image fl pillow white_400_300 = Inr out"
    by (simp add: preprocess_image_def)
  ultimately show ?thesis using m same by auto
qed






section \<open>A binary image through the Lanczos resampling of step 9\<close>

text \<open>The Lanczos kernel at the half-integer offsets that a scale of 12.5 produces, and
  the fixed-point coefficients of the output positions 187 and 212.\<close>

lemma sin_values:
  "sin (pi / 2) = 1" "sin (pi / 6) = 1 / 2" "sin (3 * pi / 2) = - 1"
  "sin (5 * pi / 2) = 1" "sin (5 * pi / 6) = 1 / 2"
proof -
  show "sin (pi / 2) = 1" by simp
  show "sin (pi / 6) = 1 / 2" by (rule sin_30)
  show "sin (3 * pi / 2) = - 1" using sin_3over2_pi by (simp add: mult.commute)
  have "sin (pi / 2 + 2 * pi) = sin (pi / 2)" by (rule sin_periodic)
  moreover have "pi / 2 + 2 * pi = 5 * pi / 2" by simp
  ultimately show "sin (5 * pi / 2) = 1" by simp
  have "sin (pi - pi / 6) = sin (pi / 6)" by (rule sin_pi_minus)
  moreover have "pi - pi / 6 = 5 * pi / 6" by simp
  ultimately show "sin (5 * pi / 6) = 1 / 2" by (simp add: sin_30)
qed

lemma lanczos_values:
  "lanczos_filter (1 / 2) = 6 / pi\<^sup>2" "lanczos_filter (- (1 / 2)) = 6 / pi\<^sup>2"
  "lanczos_filter (3 / 2) = - 4 / (3 * pi\<^sup>2)" "lanczos_filter (- (3 / 2)) = - 4 / (3 * pi\<^sup>2)"
  "lanczos_filter (5 / 2) = 6 / (25 * pi\<^sup>2)" "lanczos_filter (- (5 / 2)) = 6 / (25 * pi\<^sup>2)"
  by (simp_all add: lanczos_filter_def sinc_filter_def sin_values power2_eq_square)

lemma coeffs_187:
  "precompute_coeffs 32 400 187 = (12, [102578, - 569878, 2564452, 2564452, - 569878, 102578])"
  by (simp add: precompute_coeffs_def Let_def c_int_def upt_rec lanczos_values field_simps)

lemma coeffs_212:
  "precompute_coeffs 32 400 212 = (14, [102578, - 569878, 2564452, 2564452, - 569878, 102578])"
  by (simp add: precompute_coeffs_def Let_def c_int_def upt_rec lanczos_values field_simps)

lemma grid_cong: "(\<And>x y. x < w \<Longrightarrow> y < h \<Longrightarrow> f x y = g x y) \<Longrightarrow> grid w h f = grid w h g"
  unfolding grid_def by (intro arg_cong [where f = concat] map_cong refl) simp

lemma edge_mean: "fl (255 / 2) = 255 / 2" "fl 128 = 128"
  by code_simp+

lemma edge_steps_1_2:
  "step2_grayscale pillow (step1_flatten pillow edge_image) = edge_image"
  by (simp add: step2_grayscale_def step1_flatten_def convert_def pillow_def pillow_convert_def
      to_rgba_def luma_def edge_image_def Let_def)

lemma edge_gray_ok: "gray_ok edge_image"
  by (simp add: gray_ok_def wf_image_def edge_image_def nbands_def)

lemma edge_step3:
  "step3_invert_dark fl edge_image =
     Inr \<lparr>mode = ModeL, imsize = (2, 2), bands = [[255, 255, 0, 0]], palette = []\<rparr>"
proof -
  have "bands edge_image = [[0, 0, 255, 255]]" by (simp add: edge_image_def)
  from stat_mean_gray [OF edge_gray_ok this, of fl]
  have "stat_mean fl edge_image = Inr (255 / 2)" by (simp add: edge_mean)
  then show ?thesis
    by (simp add: step3_invert_dark_def invert_def point_def edge_image_def)
qed

lemma edge_step5:
  "step5_contrast fl pillow \<lparr>mode = ModeL, imsize = (2, 2), bands = [[255, 255, 0, 0]], palette = []\<rparr> =
     Inr \<lparr>mode = ModeL, imsize = (2, 2), bands = [[255, 255, 0, 0]], palette = []\<rparr>"
proof -
  let ?img = "\<lparr>mode = ModeL, imsize = (2, 2), bands = [[255, 255, 0, 0]], palette = []\<rparr>"
  have g: "gray_ok ?img" by (simp add: gray_ok_def wf_image_def nbands_def)
  have "bands ?img = [[255, 255, 0, 0]]" by simp
  from stat_mean_gray [OF g this, of fl]
  have "stat_mean fl ?img = Inr (255 / 2)" by (simp add: edge_mean)
  then show ?thesis
    by (simp add: step5_contrast_def contrast_enhance_def convert_def new_image_def blend_def
        blend_pixel_def edge_mean py_int_def Let_def numeral_eq_Suc)
qed

lemma edge_step6:
  "binarize fl \<lparr>mode = ModeL, imsize = (2, 2), bands = [[255, 255, 0, 0]], palette = []\<rparr> =
     \<lparr>mode = ModeL, imsize = (2, 2), bands = [[255, 255, 0, 0]], palette = []\<rparr>"
proof -
  let ?img = "\<lparr>mode = ModeL, imsize = (2, 2), bands = [[255, 255, 0, 0]], palette = []\<rparr>"
  have "wf_image ?img" by (simp add: wf_image_def nbands_def)
  from otsu_two_values [OF this _ _ rnd_ok_fl, of "[255, 255, 0, 0]" 0 255]
  have "otsu_threshold fl ?img = 0" by simp
  then show ?thesis by (simp add: binarize_def point_def)
qed

lemma edge_step7:
  "step7_median \<lparr>mode = ModeL, imsize = (2, 2), bands = [[255, 255, 0, 0]], palette = []\<rparr> =
     \<lparr>mode = ModeL, imsize = (2, 2), bands = [[255, 255, 0, 0]], palette = []\<rparr>"
  by (simp add: step7_median_def median_filter3_def grid_def window3_def clamp_index_def upt_rec)

lemma edge_step8:
  "step8_crop_pad \<lparr>mode = ModeL, imsize = (2, 2), bands = [[255, 255, 0, 0]], palette = []\<rparr> =
     \<lparr>mode = ModeL, imsize = (32, 32), bands = [edge_padded], palette = []\<rparr>"
proof -
  have "grid 32 32 (\<lambda>x y. if 15 \<le> x \<and> x < 17 \<and> 15 \<le> y \<and> y < 17
                        then [255, 255, 0, 0 :: int] ! ((y - 15) * 2 + (x - 15)) else 255)
      = edge_padded"
    unfolding edge_padded_def
  proof (rule grid_cong)
    fix x y :: nat
    consider "x = 15" "y = 15" | "x = 16" "y = 15" | "x = 15" "y = 16" | "x = 16" "y = 16"
      | "\<not> (15 \<le> x \<and> x < 17 \<and> 15 \<le> y \<and> y < 17)" by linarith
    then show "(if 15 \<le> x \<and> x < 17 \<and> 15 \<le> y \<and> y < 17
                then [255, 255, 0, 0 :: int] ! ((y - 15) * 2 + (x - 15)) else 255)
        = (if y = 16 \<and> (x = 15 \<or> x = 16) then 0 else 255)"
      by cases auto
  qed
  then show ?thesis by (simp add: step8_crop_pad_def expand_def Let_def)
qed

lemma edge_steps_1_to_8:
  "steps_1_to_8 fl pillow edge_image =
     Inr \<lparr>mode = ModeL, imsize = (32, 32), bands = [edge_padded], palette = []\<rparr>"
  by (simp add: steps_1_to_8_def Let_def edge_steps_1_2 edge_step3 step4_suppress_light_def
      point_def edge_step5 edge_step6 edge_step7 edge_step8)

lemma edge_scale: "scaled_dim fl 32 (fl (25 / 2)) = 400"
  unfolding scaled_dim_def of_nat_numeral by code_simp

lemma edge_preprocess:
  "preprocess_image fl pillow edge_image =
     Inr \<lparr>mode = ModeL, imsize = (400, 400),
          bands = [resample_vertical 400 32 400 (resample_horizontal 32 32 400 edge_padded)],
          palette = []\<rparr>"
proof -
  have "step9_resolution fl pillow
      \<lparr>mode = ModeL, imsize = (32, 32), bands = [edge_padded], palette = []\<rparr> =
     Inr \<lparr>mode = ModeL, imsize = (400, 400),
          bands = [resample_vertical 400 32 400 (resample_horizontal 32 32 400 edge_padded)],
          palette = []\<rparr>"
    by (simp add: step9_resolution_def step9_upscale_def step9_downscale_def Let_def
        py_truediv_def resize_def edge_scale pillow_def lanczos_resample_def)
  then show ?thesis by (simp only: preprocess_image_def edge_steps_1_to_8 sum.case)
qed

lemma edge_padded_nth:
  "x < 32 \<Longrightarrow> y < 32 \<Longrightarrow> edge_padded ! (y * 32 + x) = (if y = 16 \<and> (x = 15 \<or> x = 16) then 0 else 255)"
  unfolding edge_padded_def by (rule nth_grid)

lemma edge_horizontal_nth:
  assumes "y < 32"
  shows "resample_horizontal 32 32 400 edge_padded ! (y * 400 + 187) = (if y = 16 then 134 else 255)"
proof -
  have "resample_horizontal 32 32 400 edge_padded ! (y * 400 + 187)
      = weighted_pixel (precompute_coeffs 32 400 187) (\<lambda>x. edge_padded ! (y * 32 + x))"
    unfolding resample_horizontal_def using assms by (intro nth_grid) simp_all
  also have "\<dots> = (if y = 16 then 134 else 255)"
    using assms
    by (simp add: weighted_pixel_def coeffs_187 upt_rec clip8_def edge_padded_nth)
  finally show ?thesis .
qed

lemma edge_output_pixel:
  "resample_vertical 400 32 400 (resample_horizontal 32 32 400 edge_padded) ! (212 * 400 + 187) = 181"
proof -
  let ?h = "resample_horizontal 32 32 400 edge_padded"
  have "resample_vertical 400 32 400 ?h ! (212 * 400 + 187)
      = weighted_pixel (precompute_coeffs 32 400 212) (\<lambda>y. ?h ! (y * 400 + 187))"
    unfolding resample_vertical_def by (intro nth_grid) simp_all
  also have "\<dots> = 181"
    using edge_horizontal_nth [of 14] edge_horizontal_nth [of 15] edge_horizontal_nth [of 16]
      edge_horizontal_nth [of 17] edge_horizontal_nth [of 18] edge_horizontal_nth [of 19]
    by (simp add: weighted_pixel_def coeffs_212 upt_rec clip8_def)
  finally show ?thesis .
qed

text \<open>
  Claim C1, as stated, fails.  A two by two grayscale image with a black upper row and a
  white lower row leaves step 8 as a 32 by 32 image, white but for two black pixels, and
  step 9 enlarges it to 400 by 400 with the Lanczos filter.  The filter interpolates: the
  output pixel at column 187 of row 212 is 181, neither 0 nor 255, so the image that
  \<open>preprocess_image\<close> returns for this mode-L input is not binary.
\<close>

theorem resampled_output_not_binary:
  "\<exists>out. preprocess_image fl pillow edge_image = Inr out \<and> mode edge_image = ModeL \<and>
         \<not> binary_image out"
proof -
  let ?b = "resample_vertical 400 32 400 (resample_horizontal 32 32 400 edge_padded)"
  have "length ?b = 400 * 400" by (simp add: resample_vertical_def length_grid)
  then have "?b ! (212 * 400 + 187) \<in> set ?b" by (intro nth_mem) simp
  with edge_output_pixel have "181 \<in> set ?b" by simp
  then have "\<not> binary_image \<lparr>mode = ModeL, imsize = (400, 400), bands = [?b], palette = []\<rparr>"
    by (auto simp: binary_image_def intro!: bexI [of _ 181])
  with edge_preprocess show ?thesis by (simp add: edge_image_def)
qed

text \<open>
  Claim C1, amended.  For every well-formed input image with at least one pixel, of
  any of the modes RGB, RGBA, P and L: the image after step 8 is single-channel with
  every pixel 0 or 255; whatever \<open>preprocess_image\<close> returns is single-channel; and when
  step 9 has nothing to do (both dimensions after step 8 between 400 and 1500) that
  binary image is what \<open>preprocess_image\<close> returns.
\<close>

theorem preprocess_image_binary_before_resampling:
  assumes "pil_ok lib" "wf_image img" "0 < fst (imsize img)" "0 < snd (imsize img)"
    and "mode img \<in> {ModeRGB, ModeRGBA, ModeP, ModeL}"
  shows "\<exists>mid. steps_1_to_8 rnd lib img = Inr mid \<and> mode mid = ModeL \<and> binary_image mid \<and>
           (\<forall>out. preprocess_image rnd lib img = Inr out \<longrightarrow> mode out = ModeL) \<and>
           (400 \<le> min (fst (imsize mid)) (snd (imsize mid)) \<and>
            max (fst (imsize mid)) (snd (imsize mid)) \<le> 1500 \<longrightarrow>
              preprocess_image rnd lib img = Inr mid)"
proof -
  from steps_1_to_8_ok [OF assms(1-4), of rnd]
  obtain mid where mid: "steps_1_to_8 rnd lib img = Inr mid" "gray_ok mid" "binary_image mid"
    by blast
  have "mode out = ModeL" if "preprocess_image rnd lib img = Inr out" for out
    using that mid(1,2) mode_step9 [of rnd lib mid out]
    by (simp add: preprocess_image_def gray_ok_def)
  moreover have "preprocess_image rnd lib img = Inr mid"
    if "400 \<le> min (fst (imsize mid)) (snd (imsize mid))"
      "max (fst (imsize mid)) (snd (imsize mid)) \<le> 1500"
    using step9_identity [OF that, of rnd lib] mid(1) by (simp add: preprocess_image_def)
  ultimately show ?thesis using mid by (auto simp: gray_ok_def)
qed

theorem preprocess_image_binary_before_resampling_witness:
  "pil_ok pillow \<and> wf_image white_400_400 \<and> 0 < fst (imsize white_400_400) \<and>
   0 < snd (imsize white_400_400) \<and> mode white_400_400 = ModeL \<and>
   (\<exists>mid. steps_1_to_8 fl pillow white_400_400 = Inr mid \<and> mode mid = ModeL \<and>
          binary_image mid \<and> preprocess_image fl pillow white_400_400 = Inr mid)"
proof -
  have w: "wf_image white_400_400" unfolding white_400_400_def by (rule wf_replicate_gray)
  have s: "0 < fst (imsize white_400_400)" "0 < snd (imsize white_400_400)"
    by (simp_all add: imsize_examples)
  note m = mode_examples(3)
  have m': "mode white_400_400 \<in> {ModeRGB, ModeRGBA, ModeP, ModeL}" using m by simp
  from steps_1_to_8_ok [OF pil_ok_pillow w s, of fl]
  have z: "\<And>mid. steps_1_to_8 fl pillow white_400_400 = Inr mid \<Longrightarrow> imsize mid = (424, 424)"
    by (auto simp: imsize_examples)
  from preprocess_image_binary_before_resampling [OF pil_ok_pillow w s m', of fl]
  obtain mid where mid: "steps_1_to_8 fl pillow white_400_400 = Inr mid" "mode mid = ModeL"
    "binary_image mid"
    "400 \<le> min (fst (imsize mid)) (snd (imsize mid)) \<and>
       max (fst (imsize mid)) (snd (imsize mid)) \<le> 1500 \<longrightarrow>
       preprocess_image fl pillow white_400_400 = Inr mid"
    by blast
  from z [OF mid(1)] mid(4) have "preprocess_image fl pillow white_400_400 = Inr mid" by simp
  with mid pil_ok_pillow w s m show ?thesis by blast
qed

end
